theory Spec2Isabelle
  imports Main "HOL-Library.Word"
begin

section \<open>Liquid flow of dragonfly (server/block/liquid.go): data model\<close>

text \<open>
  A block position is \<open>cube.Pos\<close>, an array of three Go \<open>int\<close>s (x, y, z). Go's \<open>int\<close>
  is 64 bits wide; coordinates and depths stay far from that bound, so they are modelled
  as unbounded \<open>int\<close>. Only the search node's depth is an \<open>int8\<close> in the source and is
  modelled as an 8-bit word, read signed.
\<close>

type_synonym pos = "int \<times> int \<times> int"

definition posX :: "pos \<Rightarrow> int" where
  "posX p = fst p"

definition posY :: "pos \<Rightarrow> int" where
  "posY p = fst (snd p)"

definition posZ :: "pos \<Rightarrow> int" where
  "posZ p = snd (snd p)"

text \<open>\<open>pos.Side(cube.FaceDown)\<close>: the position directly below.\<close>

definition SideDown :: "pos \<Rightarrow> pos" where
  "SideDown p = (posX p, posY p - 1, posZ p)"

text \<open>
  Modelled from the spec: the liquid value of section 3 (type, depth, falling and the
  type-specific spread decay), behind the interface \<open>world.Liquid\<close> whose implementations
  are not part of the sources. \<open>WithDepth\<close> keeps type and decay.
\<close>

record liquid =
  LiquidType :: string
  LiquidDepth :: int
  LiquidFalling :: bool
  SpreadDecay :: int

definition WithDepth :: "liquid \<Rightarrow> int \<Rightarrow> bool \<Rightarrow> liquid" where
  "WithDepth b d f = b\<lparr>LiquidDepth := d, LiquidFalling := f\<rparr>"

type_synonym item = string

text \<open>
  The transaction \<open>tx\<close> is represented by the mutating calls issued on it so far, oldest
  first: \<open>tx.SetLiquid(pos, l)\<close> (\<open>None\<close> for nil), \<open>tx.SetBlock(pos, nil, nil)\<close>,
  \<open>dropItem(tx, d, pos.Vec3Centre())\<close> and \<open>existingLiquid.Harden(pos, tx, &src)\<close>.
  What the grid answers to a read after these calls is a parameter (record \<open>world\<close>
  below), so nothing is assumed about the storage layer.
\<close>

datatype event =
    SetLiquid pos "liquid option"
  | SetBlockNil pos
  | DropItem item pos
  | Harden liquid pos pos

type_synonym tx = "event list"

text \<open>
  Modelled from the spec: the capability queries of section 6. A Go block is an interface
  value inspected by type assertion; each assertion of the source is one field here:
  \<open>bl.(Air)\<close>, \<open>bl.(world.Liquid)\<close>, \<open>bl.(LiquidRemovable)\<close> with the result of
  \<open>HasLiquidDrops()\<close>, \<open>bl.(world.LiquidDisplacer)\<close> with \<open>CanDisplace\<close> and \<open>SideClosed\<close>,
  and \<open>bl.(Breakable)\<close> with the drops of \<open>BreakInfo().Drops(item.ToolNone{}, nil)\<close>.
\<close>

record displacer =
  CanDisplace :: "liquid \<Rightarrow> bool"
  SideClosed :: "pos \<Rightarrow> pos \<Rightarrow> tx \<Rightarrow> bool"

record block =
  isAir :: bool
  asLiquid :: "liquid option"
  asLiquidRemovable :: "bool option"
  asLiquidDisplacer :: "displacer option"
  asBreakable :: "item list option"

text \<open>
  Modelled from the spec: the grid contract of section 6 (\<open>block-at\<close>, \<open>liquid-at\<close>, the
  vertical extent, and the two cancellable hooks, which answer whether the context was
  cancelled). Reads and hooks see the calls made so far.
\<close>

record world =
  txBlock :: "tx \<Rightarrow> pos \<Rightarrow> block"
  txLiquid :: "tx \<Rightarrow> pos \<Rightarrow> liquid option"
  txRange :: "int \<times> int"
  HandleLiquidDecay :: "tx \<Rightarrow> pos \<Rightarrow> liquid \<Rightarrow> liquid option \<Rightarrow> bool"
  HandleLiquidFlow :: "tx \<Rightarrow> pos \<Rightarrow> pos \<Rightarrow> liquid \<Rightarrow> block \<Rightarrow> bool"

text \<open>
  Modelled from the spec: \<open>cube.Pos.Neighbours\<close>, the iteration over the six axis-aligned
  neighbours bounded by the grid's vertical extent. Nothing is visited from a position
  outside the extent; the upper and the lower neighbour are visited only when inside.
\<close>

definition Neighbours :: "pos \<Rightarrow> int \<times> int \<Rightarrow> pos list" where
  "Neighbours p r =
     (case p of (x, y, z) \<Rightarrow>
        if y < fst r \<or> snd r < y then []
        else [(x + 1, y, z), (x - 1, y, z)]
           @ (if y + 1 \<le> snd r then [(x, y + 1, z)] else [])
           @ (if fst r \<le> y - 1 then [(x, y - 1, z)] else [])
           @ [(x, y, z + 1), (x, y, z - 1)])"

text \<open>The two panics of the Go runtime that the code can raise.\<close>

datatype error = LiquidDropsNotBreakable | IndexOutOfRange

section \<open>Classifier\<close>

definition source :: "liquid \<Rightarrow> bool" where
  "source b \<longleftrightarrow> LiquidDepth b = 8 \<and> \<not> LiquidFalling b"

text \<open>
  The closure body of \<open>sourceAround\<close> for one neighbour: the new value of the captured
  variable \<open>sourcePresent\<close>.
\<close>

definition sourceAroundStep :: "world \<Rightarrow> liquid \<Rightarrow> pos \<Rightarrow> tx \<Rightarrow> pos \<Rightarrow> bool \<Rightarrow> bool" where
  "sourceAroundStep w b p tx neighbour sourcePresent =
     (if posY neighbour = posY p - 1 then sourcePresent
      else case txLiquid w tx neighbour of
        None \<Rightarrow> sourcePresent
      | Some side \<Rightarrow>
          if LiquidType side \<noteq> LiquidType b then sourcePresent
          else if (case asLiquidDisplacer (txBlock w tx neighbour) of
                     Some d \<Rightarrow> SideClosed d neighbour p tx
                   | None \<Rightarrow> False)
          then sourcePresent
          else if posY neighbour = posY p + 1 \<or> source side \<or> LiquidDepth side > LiquidDepth b
          then True
          else sourcePresent)"

definition sourceAround :: "world \<Rightarrow> liquid \<Rightarrow> pos \<Rightarrow> tx \<Rightarrow> bool" where
  "sourceAround w b p tx = fold (sourceAroundStep w b p tx) (Neighbours p (txRange w)) False"

section \<open>Flow executor\<close>

definition canFlowInto :: "world \<Rightarrow> liquid \<Rightarrow> tx \<Rightarrow> pos \<Rightarrow> bool \<Rightarrow> bool" where
  "canFlowInto w b tx p sideways =
     (let bl = txBlock w tx p in
      if isAir bl then True
      else if asLiquidRemovable bl \<noteq> None then
        (case asLiquid bl of
           Some liq \<Rightarrow>
             if sideways \<and> ((LiquidDepth liq = 8 \<and> \<not> LiquidFalling liq)
                              \<or> LiquidType liq \<noteq> LiquidType b)
             then False else True
         | None \<Rightarrow> True)
      else case asLiquidDisplacer bl of
        Some dis \<Rightarrow> CanDisplace dis (WithDepth b (LiquidDepth b - SpreadDecay b) (\<not> sideways))
      | None \<Rightarrow> False)"

text \<open>
  \<open>flowInto\<close> returns the Go result and the transaction after the call, or the panic.
\<close>

definition flowInto :: "world \<Rightarrow> liquid \<Rightarrow> pos \<Rightarrow> pos \<Rightarrow> tx \<Rightarrow> bool \<Rightarrow> error + (bool \<times> tx)" where
  "flowInto w b src p tx falling =
     (let newDepth = (if falling then LiquidDepth b else LiquidDepth b - SpreadDecay b) in
      if newDepth \<le> 0 \<and> \<not> falling then Inr (False, tx)
      else
        let existing = txBlock w tx p in
        case asLiquid existing of
          Some existingLiquid \<Rightarrow>
            if LiquidType existingLiquid = LiquidType b then
              (if LiquidDepth existingLiquid \<ge> newDepth \<or> LiquidFalling existingLiquid
               then Inr (True, tx)
               else if HandleLiquidFlow w tx src p (WithDepth b newDepth falling) existing
               then Inr (False, tx)
               else Inr (True, tx @ [SetLiquid p (Some (WithDepth b newDepth falling))]))
            else Inr (False, tx @ [Harden existingLiquid p src])
        | None \<Rightarrow>
            if asLiquidDisplacer existing \<noteq> None \<and> txLiquid w tx p \<noteq> None
            then Inr (False, tx)
            else if asLiquidRemovable existing = None
                  \<and> (case asLiquidDisplacer existing of
                        None \<Rightarrow> True
                      | Some d \<Rightarrow> \<not> CanDisplace d (WithDepth b newDepth falling))
            then Inr (False, tx)
            else if HandleLiquidFlow w tx src p (WithDepth b newDepth falling) existing
            then Inr (False, tx)
            else
              (case asLiquidRemovable existing of
                 Some hasLiquidDrops \<Rightarrow>
                   let tx1 = (if isAir existing then tx else tx @ [SetBlockNil p]) in
                   if hasLiquidDrops then
                     (case asBreakable existing of
                        Some drops \<Rightarrow>
                          Inr (True, tx1 @ map (\<lambda>d. DropItem d p) drops
                                       @ [SetLiquid p (Some (WithDepth b newDepth falling))])
                      | None \<Rightarrow> Inl LiquidDropsNotBreakable)
                   else Inr (True, tx1 @ [SetLiquid p (Some (WithDepth b newDepth falling))])
               | None \<Rightarrow> Inr (True, tx @ [SetLiquid p (Some (WithDepth b newDepth falling))])))"

section \<open>Horizontal path finder\<close>

text \<open>
  \<open>liquidNode\<close>: the fields \<open>x\<close>, \<open>z\<close>, \<open>depth\<close> (an \<open>int8\<close>) and \<open>previous\<close>. The pointer
  \<open>previous\<close> of a neighbour is the address of the receiver copy made by the call of
  \<open>neighbours\<close>, which nothing writes to afterwards: it is the parent's value.
\<close>

datatype liquidNode =
  LiquidNode (nx: int) (nz: int) (ndepth: "8 word") (previous: "liquidNode option")

definition neighbours :: "liquidNode \<Rightarrow> 8 word \<Rightarrow> liquidNode \<times> liquidNode \<times> liquidNode \<times> liquidNode" where
  "neighbours node decay =
     (LiquidNode (nx node - 1) (nz node) (ndepth node - decay) (Some node),
      LiquidNode (nx node + 1) (nz node) (ndepth node - decay) (Some node),
      LiquidNode (nx node) (nz node - 1) (ndepth node - decay) (Some node),
      LiquidNode (nx node) (nz node + 1) (ndepth node - decay) (Some node))"

text \<open>\<open>liquidNode.Len\<close>: the loop with its counter \<open>i\<close>, started at 1.\<close>

fun LenLoop :: "liquidNode \<Rightarrow> int \<Rightarrow> int" where
  "LenLoop (LiquidNode x z d None) i = i - 1"
| "LenLoop (LiquidNode x z d (Some p)) i = LenLoop p (i + 1)"

definition Len :: "liquidNode \<Rightarrow> int" where
  "Len node = LenLoop node 1"

type_synonym liquidPath = "pos list"

text \<open>
  \<open>liquidNode.Path\<close>: the slice of length \<open>Len\<close> is filled from its last index downwards.
  The index written is never out of range, since the loop follows the same links that
  \<open>Len\<close> counted (lemma \<open>Path_length\<close> and \<open>PathLoop_length\<close> below).
\<close>

fun PathLoop :: "liquidNode \<Rightarrow> pos \<Rightarrow> liquidPath \<Rightarrow> int \<Rightarrow> liquidPath" where
  "PathLoop (LiquidNode x z d None) src path i = path"
| "PathLoop (LiquidNode x z d (Some p)) src path i =
     PathLoop p src (path[nat i := (x, posY src, z)]) (i - 1)"

definition Path :: "liquidNode \<Rightarrow> pos \<Rightarrow> liquidPath" where
  "Path node src = (let l = Len node in PathLoop node src (replicate (nat l) (0, 0, 0)) (l - 1))"

text \<open>
  \<open>liquidQueue\<close>: the slice \<open>nodes\<close>, the cursor \<open>i\<close> (only ever set to 0 or incremented)
  and the bound \<open>shortestPath\<close>. \<open>Front\<close> indexes the slice and panics out of range.
\<close>

record liquidQueue =
  qnodes :: "liquidNode list"
  qi :: nat
  shortestPath :: int

definition PushBack :: "liquidQueue \<Rightarrow> liquidNode \<Rightarrow> liquidQueue" where
  "PushBack q node = q\<lparr>qnodes := qnodes q @ [node]\<rparr>"

definition Front :: "liquidQueue \<Rightarrow> error + (liquidNode \<times> liquidQueue)" where
  "Front q =
     (if qi q < length (qnodes q) then Inr (qnodes q ! qi q, q\<lparr>qi := qi q + 1\<rparr>)
      else Inl IndexOutOfRange)"

definition queueLen :: "liquidQueue \<Rightarrow> int" where
  "queueLen q = int (length (qnodes q)) - int (qi q)"

definition Reset :: "liquidQueue \<Rightarrow> liquidQueue" where
  "Reset q = q\<lparr>qnodes := take 0 (qnodes q), qi := 0, shortestPath := 127\<rparr>"

text \<open>
  \<open>liquidQueuePool\<close>: \<open>New\<close> builds an empty queue with the bound \<open>math.MaxInt8\<close>. The pool
  is the list of the queues put back; \<open>Get\<close> hands out one of them, or a new one when
  there is none.
\<close>

definition liquidQueueNew :: liquidQueue where
  "liquidQueueNew = \<lparr>qnodes = [], qi = 0, shortestPath = 127\<rparr>"

definition poolGet :: "liquidQueue list \<Rightarrow> liquidQueue \<times> liquidQueue list" where
  "poolGet pool = (case pool of [] \<Rightarrow> (liquidQueueNew, []) | q # qs \<Rightarrow> (q, qs))"

definition poolPut :: "liquidQueue \<Rightarrow> liquidQueue list \<Rightarrow> liquidQueue list" where
  "poolPut q pool = q # pool"

definition spreadNeighbour ::
  "world \<Rightarrow> liquid \<Rightarrow> pos \<Rightarrow> tx \<Rightarrow> liquidNode \<Rightarrow> liquidQueue \<Rightarrow> bool \<times> liquidQueue" where
  "spreadNeighbour w b src tx node queue =
     (if sint (ndepth node + 3) \<le> 0 then (False, queue)
      else if Len node > shortestPath queue then (False, queue)
      else if \<not> canFlowInto w b tx (nx node, posY src, nz node) True then (False, queue)
      else if canFlowInto w b tx (nx node, posY src - 1, nz node) False then (True, queue)
      else (False, PushBack queue node))"

text \<open>
  One of the four blocks of the loop body of \<open>calculateLiquidPaths\<close> (they differ only in
  the neighbour): the closed-side test on the first expansion, \<open>spreadNeighbour\<close>, and on
  success the new bound and the appended path.
\<close>

definition visit ::
  "world \<Rightarrow> liquid \<Rightarrow> pos \<Rightarrow> tx \<Rightarrow> displacer option \<Rightarrow> bool \<Rightarrow> liquidNode
     \<Rightarrow> liquidQueue \<times> liquidPath list \<Rightarrow> liquidQueue \<times> liquidPath list" where
  "visit w b p tx displacer first neigh s =
     (case s of (queue, paths) \<Rightarrow>
        if \<not> first \<or> (case displacer of
                          None \<Rightarrow> True
                        | Some d \<Rightarrow> \<not> SideClosed d p (nx neigh, posY p, nz neigh) tx)
        then (case spreadNeighbour w b p tx neigh queue of
                (True, queue') \<Rightarrow> (queue'\<lparr>shortestPath := Len neigh\<rparr>, paths @ [Path neigh p])
              | (False, queue') \<Rightarrow> (queue', paths))
        else (queue, paths))"

text \<open>The loop body after \<open>queue.Front()\<close>: the four neighbours in the order A, B, C, D.\<close>

definition expand ::
  "world \<Rightarrow> liquid \<Rightarrow> pos \<Rightarrow> tx \<Rightarrow> displacer option \<Rightarrow> 8 word \<Rightarrow> bool \<Rightarrow> liquidNode
     \<Rightarrow> liquidQueue \<times> liquidPath list \<Rightarrow> liquidQueue \<times> liquidPath list" where
  "expand w b p tx displacer decay first node s =
     (case neighbours node (decay * 2) of
        (neighA, neighB, neighC, neighD) \<Rightarrow>
          visit w b p tx displacer first neighD
            (visit w b p tx displacer first neighC
              (visit w b p tx displacer first neighB
                (visit w b p tx displacer first neighA s))))"

text \<open>The \<open>for\<close> loop of \<open>calculateLiquidPaths\<close>; it returns the paths and the queue.\<close>

function searchLoop ::
  "world \<Rightarrow> liquid \<Rightarrow> pos \<Rightarrow> tx \<Rightarrow> displacer option \<Rightarrow> 8 word \<Rightarrow> liquidQueue
     \<Rightarrow> liquidPath list \<Rightarrow> bool \<Rightarrow> error + (liquidPath list \<times> liquidQueue)" where
  "searchLoop w b p tx displacer decay queue paths first =
     (if queueLen queue = 0 then Inr (paths, queue)
      else case Front queue of
        Inl e \<Rightarrow> Inl e
      | Inr (node, queue1) \<Rightarrow>
          (case expand w b p tx displacer decay first node (queue1, paths) of
             (queue2, paths2) \<Rightarrow> searchLoop w b p tx displacer decay queue2 paths2 False))"
  by pat_completeness auto

text \<open>
  The measure of the loop: a pending node of path length \<open>l\<close> weighs \<open>5 ^ (shortestPath + 1 - l)\<close>.
  Expanding a node appends at most four nodes, each one step longer and none longer than
  the bound, and the bound never grows.
\<close>

definition nodeWeight :: "int \<Rightarrow> liquidNode \<Rightarrow> nat" where
  "nodeWeight sp n = 5 ^ nat (sp + 1 - Len n)"

definition queueWeight :: "liquidQueue \<Rightarrow> nat" where
  "queueWeight q = sum_list (map (nodeWeight (shortestPath q)) (drop (qi q) (qnodes q)))"

definition pushWeight :: "int \<Rightarrow> int \<Rightarrow> nat" where
  "pushWeight sp l = (if l + 1 \<le> sp then 5 ^ nat (sp - l) else 0)"

text \<open>
  \<open>calculateLiquidPaths\<close>: the queue comes from the pool and goes back to it after the
  deferred \<open>Reset\<close>; the result is the paths and the pool.
\<close>

definition calculateLiquidPaths ::
  "world \<Rightarrow> liquid \<Rightarrow> pos \<Rightarrow> tx \<Rightarrow> displacer option \<Rightarrow> liquidQueue list
     \<Rightarrow> error + (liquidPath list \<times> liquidQueue list)" where
  "calculateLiquidPaths w b p tx displacer pool =
     (case poolGet pool of
        (queue, pool1) \<Rightarrow>
          (case searchLoop w b p tx displacer (word_of_int (SpreadDecay b))
                  (PushBack queue (LiquidNode (posX p) (posZ p) (word_of_int (LiquidDepth b)) None))
                  [] True of
             Inl e \<Rightarrow> Inl e
           | Inr (paths, queue') \<Rightarrow> Inr (paths, poolPut (Reset queue') pool1)))"

section \<open>The tick\<close>

text \<open>The closure body of \<open>spreadOutwards\<close> for one neighbour, on the transaction so far.\<close>

definition spreadOutwardsStep ::
  "world \<Rightarrow> liquid \<Rightarrow> pos \<Rightarrow> displacer option \<Rightarrow> pos \<Rightarrow> error + tx \<Rightarrow> error + tx" where
  "spreadOutwardsStep w b p displacer neighbour r =
     (case r of
        Inl e \<Rightarrow> Inl e
      | Inr tx \<Rightarrow>
          if posY neighbour = posY p then
            (if (case displacer of None \<Rightarrow> True | Some d \<Rightarrow> \<not> SideClosed d p neighbour tx)
             then (case flowInto w b p neighbour tx False of
                     Inl e \<Rightarrow> Inl e
                   | Inr (ok, tx') \<Rightarrow> Inr tx')
             else Inr tx)
          else Inr tx)"

definition spreadOutwards :: "world \<Rightarrow> liquid \<Rightarrow> pos \<Rightarrow> tx \<Rightarrow> displacer option \<Rightarrow> error + tx" where
  "spreadOutwards w b p tx displacer =
     fold (spreadOutwardsStep w b p displacer) (Neighbours p (txRange w)) (Inr tx)"

text \<open>
  Lines 124 to 131 of \<open>tickLiquid\<close>: the liquid \<open>b\<close> as it stands afterwards (a falling
  liquid that cannot fall becomes \<open>b.WithDepth(8, true)\<close>) and the transaction.
\<close>

definition verticalFlow ::
  "world \<Rightarrow> liquid \<Rightarrow> pos \<Rightarrow> tx \<Rightarrow> displacer option \<Rightarrow> bool \<Rightarrow> error + (liquid \<times> tx)" where
  "verticalFlow w b p tx displacer canFlowBelow =
     (if LiquidFalling b \<and> \<not> canFlowBelow then Inr (WithDepth b 8 True, tx)
      else if canFlowBelow then
        (if (case displacer of None \<Rightarrow> True | Some d \<Rightarrow> \<not> SideClosed d p (SideDown p) tx)
         then (case flowInto w (WithDepth b 8 True) p (SideDown p) tx True of
                 Inl e \<Rightarrow> Inl e
               | Inr (ok, tx') \<Rightarrow> Inr (b, tx'))
         else Inr (b, tx))
      else Inr (b, tx))"

text \<open>The body of the loop over \<open>paths\<close> at the end of \<open>tickLiquid\<close>; \<open>path[0]\<close> panics on an empty path.\<close>

definition flowPathStep ::
  "world \<Rightarrow> liquid \<Rightarrow> pos \<Rightarrow> nat \<Rightarrow> liquidPath \<Rightarrow> error + tx \<Rightarrow> error + tx" where
  "flowPathStep w b p smallestLen path r =
     (case r of
        Inl e \<Rightarrow> Inl e
      | Inr tx \<Rightarrow>
          if length path \<le> smallestLen then
            (case path of
               [] \<Rightarrow> Inl IndexOutOfRange
             | first # rest \<Rightarrow>
                 (case flowInto w b p first tx False of
                    Inl e \<Rightarrow> Inl e
                  | Inr (ok, tx') \<Rightarrow> Inr tx'))
          else Inr tx)"

text \<open>
  Lines 133 to 151 of \<open>tickLiquid\<close>, after the vertical step: the early return, the path
  search, and the flow along the paths or outwards.
\<close>

definition horizontalFlow ::
  "world \<Rightarrow> liquid \<Rightarrow> pos \<Rightarrow> tx \<Rightarrow> displacer option \<Rightarrow> bool \<Rightarrow> liquidQueue list
     \<Rightarrow> error + (tx \<times> liquidQueue list)" where
  "horizontalFlow w b p tx displacer canFlowBelow pool =
     (if LiquidDepth b \<le> SpreadDecay b then Inr (tx, pool)
      else if source b \<or> \<not> canFlowBelow then
        (case calculateLiquidPaths w b p tx displacer pool of
           Inl e \<Rightarrow> Inl e
         | Inr (paths, pool') \<Rightarrow>
             (case paths of
                [] \<Rightarrow>
                  (case spreadOutwards w b p tx displacer of
                     Inl e \<Rightarrow> Inl e
                   | Inr tx' \<Rightarrow> Inr (tx', pool'))
              | path0 # rest \<Rightarrow>
                  (case fold (flowPathStep w b p (length path0)) paths (Inr tx) of
                     Inl e \<Rightarrow> Inl e
                   | Inr tx' \<Rightarrow> Inr (tx', pool'))))
      else Inr (tx, pool))"

definition tickLiquid ::
  "world \<Rightarrow> liquid \<Rightarrow> pos \<Rightarrow> tx \<Rightarrow> liquidQueue list \<Rightarrow> error + (tx \<times> liquidQueue list)" where
  "tickLiquid w b p tx pool =
     (if \<not> source b \<and> \<not> sourceAround w b p tx then
        (let res = (if LiquidDepth b - 4 > 0
                    then Some (WithDepth b (LiquidDepth b - 2 * SpreadDecay b) False)
                    else None)
         in if HandleLiquidDecay w tx p b res then Inr (tx, pool)
            else Inr (tx @ [SetLiquid p res], pool))
      else
        (let displacer = asLiquidDisplacer (txBlock w tx p);
             canFlowBelow = canFlowInto w b tx (SideDown p) False
         in case verticalFlow w b p tx displacer canFlowBelow of
              Inl e \<Rightarrow> Inl e
            | Inr (b', tx') \<Rightarrow> horizontalFlow w b' p tx' displacer canFlowBelow pool))"

section \<open>A sample grid\<close>

text \<open>
  Modelled from the spec: a grid that implements the contract of section 6, used to run
  the engine on concrete scenes. A cell holds a block and, when the block is a displacer,
  possibly a liquid beside it. \<open>set-liquid\<close> with a liquid replaces air or a liquid and
  fills a displacer that accepts it; with nil it removes the liquid. The hardening
  reaction belongs to the liquid implementations, which are not in the sources: the grid
  leaves the cells as they are. No hook cancels.
\<close>

definition air :: block where
  "air = \<lparr>isAir = True, asLiquid = None, asLiquidRemovable = Some False,
          asLiquidDisplacer = None, asBreakable = None\<rparr>"

definition stone :: block where
  "stone = \<lparr>isAir = False, asLiquid = None, asLiquidRemovable = None,
            asLiquidDisplacer = None, asBreakable = Some [''stone'']\<rparr>"

definition liquidBlock :: "liquid \<Rightarrow> block" where
  "liquidBlock l = \<lparr>isAir = False, asLiquid = Some l, asLiquidRemovable = Some False,
                    asLiquidDisplacer = None, asBreakable = None\<rparr>"

definition water :: "int \<Rightarrow> bool \<Rightarrow> liquid" where
  "water d f = \<lparr>LiquidType = ''water'', LiquidDepth = d, LiquidFalling = f, SpreadDecay = 1\<rparr>"

definition lava :: "int \<Rightarrow> bool \<Rightarrow> liquid" where
  "lava d f = \<lparr>LiquidType = ''lava'', LiquidDepth = d, LiquidFalling = f, SpreadDecay = 2\<rparr>"

record grid =
  gridBlock :: "pos \<Rightarrow> block"
  gridLiquid :: "pos \<Rightarrow> liquid option"

fun applyEvent :: "event \<Rightarrow> grid \<Rightarrow> grid" where
  "applyEvent (SetLiquid p None) g =
     g\<lparr>gridBlock := (gridBlock g)(p := if asLiquid (gridBlock g p) \<noteq> None then air
                                        else gridBlock g p),
       gridLiquid := (gridLiquid g)(p := None)\<rparr>"
| "applyEvent (SetLiquid p (Some l)) g =
     (if isAir (gridBlock g p) \<or> asLiquid (gridBlock g p) \<noteq> None
      then g\<lparr>gridBlock := (gridBlock g)(p := liquidBlock l)\<rparr>
      else case asLiquidDisplacer (gridBlock g p) of
        Some d \<Rightarrow> if CanDisplace d l then g\<lparr>gridLiquid := (gridLiquid g)(p := Some l)\<rparr> else g
      | None \<Rightarrow> g)"
| "applyEvent (SetBlockNil p) g =
     g\<lparr>gridBlock := (gridBlock g)(p := air), gridLiquid := (gridLiquid g)(p := None)\<rparr>"
| "applyEvent (DropItem d p) g = g"
| "applyEvent (Harden l p src) g = g"

definition gridWorld :: "grid \<Rightarrow> world" where
  "gridWorld g =
     \<lparr>txBlock = (\<lambda>tx p. gridBlock (fold applyEvent tx g) p),
      txLiquid = (\<lambda>tx p. case asLiquid (gridBlock (fold applyEvent tx g) p) of
                           Some l \<Rightarrow> Some l
                         | None \<Rightarrow> gridLiquid (fold applyEvent tx g) p),
      txRange = (-64, 319),
      HandleLiquidDecay = (\<lambda>tx p old new. False),
      HandleLiquidFlow = (\<lambda>tx src dst l replaced. False)\<rparr>"

text \<open>Scenes: a stone floor below \<open>y = 0\<close> and air above it.\<close>

definition floorGrid :: "pos \<Rightarrow> block" where
  "floorGrid p = (if posY p < 0 then stone else air)"

text \<open>Flowing water of depth 4 alone on the floor, with no liquid around it.\<close>

definition decayScene :: grid where
  "decayScene = \<lparr>gridBlock = floorGrid((0, 0, 0) := liquidBlock (water 4 False)),
                  gridLiquid = (\<lambda>p. None)\<rparr>"

text \<open>
  The feeding condition in the words of the spec (section 4.1), to be compared with
  \<open>sourceAround\<close>: the interface is closed when a displacer on either side reports it.
\<close>

definition interfaceClosedSpec :: "world \<Rightarrow> tx \<Rightarrow> pos \<Rightarrow> pos \<Rightarrow> bool" where
  "interfaceClosedSpec w tx p neighbour \<longleftrightarrow>
     (case asLiquidDisplacer (txBlock w tx neighbour) of
        Some d \<Rightarrow> SideClosed d neighbour p tx | None \<Rightarrow> False)
     \<or> (case asLiquidDisplacer (txBlock w tx p) of
        Some d \<Rightarrow> SideClosed d p neighbour tx | None \<Rightarrow> False)"

definition feedsSpec :: "world \<Rightarrow> liquid \<Rightarrow> pos \<Rightarrow> tx \<Rightarrow> pos \<Rightarrow> bool" where
  "feedsSpec w b p tx neighbour \<longleftrightarrow>
     (case txLiquid w tx neighbour of
        None \<Rightarrow> False
      | Some side \<Rightarrow>
          LiquidType side = LiquidType b
          \<and> (posY neighbour = posY p + 1 \<or> source side \<or> LiquidDepth b < LiquidDepth side)
          \<and> \<not> interfaceClosedSpec w tx p neighbour)"

definition sourceAroundSpec :: "world \<Rightarrow> liquid \<Rightarrow> pos \<Rightarrow> tx \<Rightarrow> bool" where
  "sourceAroundSpec w b p tx =
     list_ex (\<lambda>n. posY n \<noteq> posY p - 1 \<and> feedsSpec w b p tx n) (Neighbours p (txRange w))"

text \<open>A displacer that accepts every liquid and reports every side closed.\<close>

definition sealed :: displacer where
  "sealed = \<lparr>CanDisplace = (\<lambda>l. True), SideClosed = (\<lambda>p side tx. True)\<rparr>"

definition sealedBlock :: block where
  "sealedBlock = \<lparr>isAir = False, asLiquid = None, asLiquidRemovable = None,
                  asLiquidDisplacer = Some sealed, asBreakable = Some []\<rparr>"

text \<open>Water of depth 4 inside a sealed displacer at the origin, next to a water source.\<close>

definition feedScene :: grid where
  "feedScene =
     \<lparr>gridBlock = floorGrid((0, 0, 0) := sealedBlock, (1, 0, 0) := liquidBlock (water 8 False)),
      gridLiquid = (\<lambda>p. None)((0, 0, 0) := Some (water 4 False))\<rparr>"

text \<open>The candidate depth of \<open>flowInto\<close>: \<open>newDepth\<close> after the adjustment for \<open>falling\<close>.\<close>

definition newDepthOf :: "liquid \<Rightarrow> bool \<Rightarrow> int" where
  "newDepthOf b falling = (if falling then LiquidDepth b else LiquidDepth b - SpreadDecay b)"

text \<open>The liquids written by a sequence of calls, each with its position.\<close>

fun writes :: "tx \<Rightarrow> (pos \<times> liquid) list" where
  "writes [] = []"
| "writes (SetLiquid p (Some l) # evs) = (p, l) # writes evs"
| "writes (e # evs) = writes evs"

text \<open>Water of depth \<open>d\<close> at the origin, next to a lava source.\<close>

definition lavaScene :: "int \<Rightarrow> grid" where
  "lavaScene d = \<lparr>gridBlock = floorGrid((0, 0, 0) := liquidBlock (water d False),
                                          (1, 0, 0) := liquidBlock (lava 8 False)),
                   gridLiquid = (\<lambda>p. None)\<rparr>"

text \<open>
  The invariant of the search: the nodes still to expand are ordered by path length and
  span at most two consecutive lengths \<open>l\<close> and \<open>l + 1\<close>; every path found so far has the
  length of the bound \<open>shortestPath\<close> and is not empty.
\<close>

definition pending :: "liquidQueue \<Rightarrow> liquidNode list" where
  "pending q = drop (qi q) (qnodes q)"

definition searchInv :: "int \<Rightarrow> liquidQueue \<Rightarrow> liquidPath list \<Rightarrow> bool" where
  "searchInv l q paths \<longleftrightarrow>
     0 \<le> l \<and> qi q \<le> length (qnodes q)
     \<and> (\<forall>m\<in>set (pending q). l \<le> Len m \<and> Len m \<le> l + 1)
     \<and> sorted (map Len (pending q))
     \<and> (\<forall>path\<in>set paths. length path = nat (shortestPath q) \<and> path \<noteq> [])
     \<and> (paths \<noteq> [] \<longrightarrow> shortestPath q \<le> l + 1)"

text \<open>
  The loop of \<open>calculateLiquidPaths\<close> with a bound on the number of iterations: \<open>None\<close> when
  the bound is used up before the queue is empty. It is used to state that the loop ends.
\<close>

fun searchIter ::
  "nat \<Rightarrow> world \<Rightarrow> liquid \<Rightarrow> pos \<Rightarrow> tx \<Rightarrow> displacer option \<Rightarrow> 8 word \<Rightarrow> liquidQueue
     \<Rightarrow> liquidPath list \<Rightarrow> bool \<Rightarrow> (error + (liquidPath list \<times> liquidQueue)) option" where
  "searchIter 0 w b p tx displacer decay queue paths first = None"
| "searchIter (Suc n) w b p tx displacer decay queue paths first =
     (if queueLen queue = 0 then Some (Inr (paths, queue))
      else case Front queue of
        Inl e \<Rightarrow> Some (Inl e)
      | Inr (node, queue1) \<Rightarrow>
          (case expand w b p tx displacer decay first node (queue1, paths) of
             (queue2, paths2) \<Rightarrow> searchIter n w b p tx displacer decay queue2 paths2 False))"

text \<open>The queue of \<open>calculateLiquidPaths\<close> after its first \<open>PushBack\<close>, when the queue is new.\<close>

definition seedQueue :: "liquid \<Rightarrow> pos \<Rightarrow> liquidQueue" where
  "seedQueue b p =
     PushBack liquidQueueNew (LiquidNode (posX p) (posZ p) (word_of_int (LiquidDepth b)) None)"

text \<open>
  The state of the pool between two searches: every queue in it went through \<open>Reset\<close>
  before it was put back (\<open>calculateLiquidPaths\<close> is the only user of the pool).
\<close>

definition poolReset :: "liquidQueue list \<Rightarrow> bool" where
  "poolReset pool \<longleftrightarrow> (\<forall>q\<in>set pool. q = liquidQueueNew)"

text \<open>
  A water source at the origin next to the block \<open>bl\<close>; a block that claims liquid drops
  without being breakable.
\<close>

definition dropsScene :: "block \<Rightarrow> grid" where
  "dropsScene bl = \<lparr>gridBlock = floorGrid((0, 0, 0) := liquidBlock (water 8 False), (1, 0, 0) := bl),
                     gridLiquid = (\<lambda>p. None)\<rparr>"

definition brokenPlant :: block where
  "brokenPlant = \<lparr>isAir = False, asLiquid = None, asLiquidRemovable = Some True,
                  asLiquidDisplacer = None, asBreakable = None\<rparr>"

text \<open>
  The flow along the paths in the words of the spec (section 4.4), to be compared with the
  loop at the end of \<open>tickLiquid\<close>: the paths of minimal length among the returned ones, and
  a flow into each position of a list in turn.
\<close>

definition flowIntoEachSpec :: "world \<Rightarrow> liquid \<Rightarrow> pos \<Rightarrow> pos list \<Rightarrow> tx \<Rightarrow> error + tx" where
  "flowIntoEachSpec w b p targets tx =
     fold (\<lambda>target r. case r of
                        Inl e \<Rightarrow> Inl e
                      | Inr tx' \<Rightarrow> (case flowInto w b p target tx' False of
                                     Inl e \<Rightarrow> Inl e
                                   | Inr (ok, tx'') \<Rightarrow> Inr tx''))
          targets (Inr tx)"

definition minimalPathsSpec :: "liquidPath list \<Rightarrow> liquidPath list" where
  "minimalPathsSpec paths = filter (\<lambda>path. list_all (\<lambda>other. length path \<le> length other) paths) paths"

text \<open>
  A source on the floor with a hole in the floor one step to the east, one step to the
  west, and two steps to the south.
\<close>

definition twoHoles :: grid where
  "twoHoles = \<lparr>gridBlock = floorGrid((0, 0, 0) := liquidBlock (water 8 False),
                                       (1, - 1, 0) := air, (- 1, - 1, 0) := air, (0, - 1, 2) := air),
                gridLiquid = (\<lambda>p. None)\<rparr>"

text \<open>
  The outward spread in the words of the spec: the four horizontal neighbours, and the
  flow into one of them unless the displacer at the liquid's cell reports that side closed.
\<close>

definition horizontalNeighboursSpec :: "pos \<Rightarrow> pos list" where
  "horizontalNeighboursSpec p =
     [(posX p + 1, posY p, posZ p), (posX p - 1, posY p, posZ p),
      (posX p, posY p, posZ p + 1), (posX p, posY p, posZ p - 1)]"

definition flowOutwardSpec ::
  "world \<Rightarrow> liquid \<Rightarrow> pos \<Rightarrow> displacer option \<Rightarrow> pos \<Rightarrow> error + tx \<Rightarrow> error + tx" where
  "flowOutwardSpec w b p displacer neighbour r =
     (case r of
        Inl e \<Rightarrow> Inl e
      | Inr tx \<Rightarrow>
          if (case displacer of None \<Rightarrow> False | Some d \<Rightarrow> SideClosed d p neighbour tx) then Inr tx
          else (case flowInto w b p neighbour tx False of
                  Inl e \<Rightarrow> Inl e
                | Inr (ok, tx') \<Rightarrow> Inr tx'))"

text \<open>
  A transaction result that extends \<open>tx\<close> by calls whose liquid writes all lie in \<open>W\<close>.
\<close>

definition extendsWith :: "(pos \<times> liquid) set \<Rightarrow> tx \<Rightarrow> error + tx \<Rightarrow> bool" where
  "extendsWith W tx r \<longleftrightarrow>
     (case r of Inl e \<Rightarrow> True | Inr tx' \<Rightarrow> (\<exists>evs. tx' = tx @ evs \<and> set (writes evs) \<subseteq> W))"

text \<open>
  A source on a flat closed floor; a source over a hole; and flowing water of depth 7 over
  a hole, next to the source that feeds it.
\<close>

definition flatScene :: grid where
  "flatScene = \<lparr>gridBlock = floorGrid((0, 0, 0) := liquidBlock (water 8 False)),
                 gridLiquid = (\<lambda>p. None)\<rparr>"

definition dropScene :: grid where
  "dropScene = \<lparr>gridBlock = floorGrid((0, 0, 0) := liquidBlock (water 8 False), (0, - 1, 0) := air),
                 gridLiquid = (\<lambda>p. None)\<rparr>"

definition streamDropScene :: grid where
  "streamDropScene =
     \<lparr>gridBlock = floorGrid((1, 0, 0) := liquidBlock (water 8 False),
                             (0, 0, 0) := liquidBlock (water 7 False), (0, - 1, 0) := air),
      gridLiquid = (\<lambda>p. None)\<rparr>"

section \<open>Termination of the path search\<close>

lemma LenLoop_shift: "LenLoop n i = LenLoop n 0 + i"
proof (induction n arbitrary: i)
  case (LiquidNode x z d prev)
  show ?case
  proof (cases prev)
    case None
    then show ?thesis by simp
  next
    case (Some p)
    have "LenLoop p (i + 1) = LenLoop p 0 + (i + 1)"
      using LiquidNode[of p "i + 1"] Some by simp
    moreover have "LenLoop p 1 = LenLoop p 0 + 1"
      using LiquidNode[of p 1] Some by simp
    ultimately show ?thesis using Some by simp
  qed
qed

lemma Len_root [simp]: "Len (LiquidNode x z d None) = 0"
  by (simp add: Len_def)

lemma Len_child [simp]: "Len (LiquidNode x z d (Some p)) = Len p + 1"
  using LenLoop_shift[of p 2] LenLoop_shift[of p 1] by (simp add: Len_def)

lemma Len_nonneg: "0 \<le> Len n"
proof (induction n)
  case (LiquidNode x z d prev)
  then show ?case by (cases prev) auto
qed

lemma PathLoop_length [simp]: "length (PathLoop n src path i) = length path"
proof (induction n arbitrary: path i)
  case (LiquidNode x z d prev)
  then show ?case by (cases prev) auto
qed

lemma Path_length: "length (Path n src) = nat (Len n)"
  by (simp add: Path_def Let_def)

lemma nodeWeight_mono: "sp' \<le> sp \<Longrightarrow> nodeWeight sp' n \<le> nodeWeight sp n"
  by (simp add: nodeWeight_def power_increasing)

lemma sum_nodeWeight_mono:
  "sp' \<le> sp \<Longrightarrow> sum_list (map (nodeWeight sp') xs) \<le> sum_list (map (nodeWeight sp) xs)"
  by (induction xs) (auto simp: add_mono nodeWeight_mono)

lemma pushWeight_mono: "sp' \<le> sp \<Longrightarrow> pushWeight sp' l \<le> pushWeight sp l"
  by (auto simp: pushWeight_def power_increasing)

lemma pushWeight_less: "4 * pushWeight sp l < nodeWeight sp n" if "Len n = l"
proof (cases "l + 1 \<le> sp")
  case True
  then have "nat (sp + 1 - l) = Suc (nat (sp - l))" by simp
  then show ?thesis using True that by (simp add: pushWeight_def nodeWeight_def)
next
  case False
  then show ?thesis by (simp add: pushWeight_def nodeWeight_def)
qed

lemma visit_weight:
  assumes "Len neigh = l + 1" "visit w b p tx displacer first neigh (q, ps) = (q', ps')"
  shows "qi q' = qi q \<and> shortestPath q' \<le> shortestPath q
         \<and> queueWeight q' \<le> queueWeight q + pushWeight (shortestPath q) l"
proof -
  have push: "queueWeight (PushBack q neigh) \<le> queueWeight q + pushWeight (shortestPath q) l"
    if "l + 1 \<le> shortestPath q"
  proof -
    have "drop (qi q - length (qnodes q)) [neigh] = [] \<or> drop (qi q - length (qnodes q)) [neigh] = [neigh]"
      by (cases "qi q - length (qnodes q)") auto
    then show ?thesis using that assms(1)
      by (auto simp: queueWeight_def PushBack_def pushWeight_def nodeWeight_def)
  qed
  have bound: "queueWeight (q\<lparr>shortestPath := l + 1\<rparr>) \<le> queueWeight q" if "l + 1 \<le> shortestPath q"
    using that by (simp add: queueWeight_def sum_nodeWeight_mono)
  show ?thesis
    using assms push bound
    by (auto simp: visit_def spreadNeighbour_def PushBack_def split: if_splits option.splits)
qed

lemma expand_weight:
  assumes "expand w b p tx displacer decay first node (q, ps) = (q', ps')"
  shows "qi q' = qi q \<and> queueWeight q' \<le> queueWeight q + 4 * pushWeight (shortestPath q) (Len node)"
proof -
  obtain nA nB nC nD where n: "neighbours node (decay * 2) = (nA, nB, nC, nD)"
    by (metis prod_cases4)
  have l: "Len nA = Len node + 1" "Len nB = Len node + 1" "Len nC = Len node + 1" "Len nD = Len node + 1"
    using n by (auto simp: neighbours_def)
  obtain q1 p1 where v1: "visit w b p tx displacer first nA (q, ps) = (q1, p1)" by fastforce
  obtain q2 p2 where v2: "visit w b p tx displacer first nB (q1, p1) = (q2, p2)" by fastforce
  obtain q3 p3 where v3: "visit w b p tx displacer first nC (q2, p2) = (q3, p3)" by fastforce
  obtain q4 p4 where v4: "visit w b p tx displacer first nD (q3, p3) = (q4, p4)" by fastforce
  have e: "q' = q4" using assms n v1 v2 v3 v4 by (simp add: expand_def)
  note w1 = visit_weight[OF l(1) v1] and w2 = visit_weight[OF l(2) v2]
    and w3 = visit_weight[OF l(3) v3] and w4 = visit_weight[OF l(4) v4]
  have m2: "pushWeight (shortestPath q1) (Len node) \<le> pushWeight (shortestPath q) (Len node)"
    using w1 by (simp add: pushWeight_mono)
  have m3: "pushWeight (shortestPath q2) (Len node) \<le> pushWeight (shortestPath q) (Len node)"
    using w1 w2 by (simp add: pushWeight_mono)
  have m4: "pushWeight (shortestPath q3) (Len node) \<le> pushWeight (shortestPath q) (Len node)"
    using w1 w2 w3 by (simp add: pushWeight_mono)
  show ?thesis using e w1 w2 w3 w4 m2 m3 m4 by auto
qed

lemma Front_weight:
  assumes "Front q = Inr (node, q1)"
  shows "queueWeight q = nodeWeight (shortestPath q) node + queueWeight q1 \<and> shortestPath q1 = shortestPath q"
  using assms
  by (auto simp: Front_def queueWeight_def split: if_splits simp flip: Cons_nth_drop_Suc)

lemma searchLoop_decreases:
  assumes "Front queue = Inr (node, queue1)"
    and "expand w b p tx displacer decay first node (queue1, paths) = (queue2, paths2)"
  shows "queueWeight queue2 < queueWeight queue"
proof -
  have "queueWeight queue = nodeWeight (shortestPath queue) node + queueWeight queue1"
    and "shortestPath queue1 = shortestPath queue"
    using Front_weight[OF assms(1)] by auto
  moreover have "queueWeight queue2 \<le> queueWeight queue1 + 4 * pushWeight (shortestPath queue1) (Len node)"
    using expand_weight[OF assms(2)] by simp
  moreover have "4 * pushWeight (shortestPath queue) (Len node) < nodeWeight (shortestPath queue) node"
    by (rule pushWeight_less) simp
  ultimately show ?thesis by simp
qed

termination searchLoop
proof (relation "measure (\<lambda>(w, b, p, tx, displacer, decay, queue, paths, first). queueWeight queue)")
  fix w b p tx displacer decay queue paths first x2 node queue1 queue2 paths2
  assume "Front queue = Inr x2" and "(node, queue1) = x2"
    and "(queue2, paths2) = expand w b p tx displacer decay first node (queue1, paths)"
  then have "queueWeight queue2 < queueWeight queue"
    using searchLoop_decreases[of queue node queue1 w b p tx displacer decay first paths queue2 paths2]
    by simp
  then show "((w, b, p, tx, displacer, decay, queue2, paths2, False),
              (w, b, p, tx, displacer, decay, queue, paths, first))
      \<in> measure (\<lambda>(w, b, p, tx, displacer, decay, queue, paths, first). queueWeight queue)"
    by simp
qed simp

section \<open>The decay of a liquid that is not sustained\<close>

text \<open>
  What the first branch of \<open>tickLiquid\<close> does: it tests \<open>depth - 4 > 0\<close>, writes the depth
  \<open>depth - 2 * spreadDecay\<close> when the test holds and removes the liquid otherwise, unless
  the decay hook cancels.
\<close>

lemma tickLiquid_decay:
  assumes "\<not> source b" and "\<not> sourceAround w b p tx"
  shows "tickLiquid w b p tx pool =
           (let res = (if 4 < LiquidDepth b
                       then Some (WithDepth b (LiquidDepth b - 2 * SpreadDecay b) False)
                       else None)
            in if HandleLiquidDecay w tx p b res then Inr (tx, pool)
               else Inr (tx @ [SetLiquid p res], pool))"
  using assms by (simp add: tickLiquid_def)

text \<open>
  Claim C1. A liquid that is neither a source nor fed by one decays to
  \<open>depth - 2 * spreadDecay\<close>: the cell is updated to that depth when it is positive and the
  liquid is removed otherwise. The code tests \<open>depth - 4 > 0\<close> in place of the decayed depth:
  water (spread decay 1) of depth 4, alone on a floor, has the decayed depth 2, and the
  tick removes it.
\<close>

theorem tickLiquid_decay_water_depth_4:
  "tickLiquid (gridWorld decayScene) (water 4 False) (0, 0, 0) [] []
     = Inr ([SetLiquid (0, 0, 0) None], [])
   \<and> LiquidDepth (water 4 False) - 2 * SpreadDecay (water 4 False) = 2"
  by (simp add: tickLiquid_def source_def sourceAround_def sourceAroundStep_def Neighbours_def
      gridWorld_def decayScene_def floorGrid_def water_def posY_def air_def stone_def
      liquidBlock_def)

section \<open>Which neighbours feed a liquid\<close>

lemmas scene_defs = gridWorld_def floorGrid_def water_def lava_def posY_def posX_def posZ_def
  air_def stone_def liquidBlock_def

lemma sourceAroundStep_eq:
  "sourceAroundStep w b p tx n acc \<longleftrightarrow>
     acc \<or> (posY n \<noteq> posY p - 1
       \<and> (\<exists>side. txLiquid w tx n = Some side \<and> LiquidType side = LiquidType b
            \<and> (posY n = posY p + 1 \<or> source side \<or> LiquidDepth b < LiquidDepth side)
            \<and> (\<forall>d. asLiquidDisplacer (txBlock w tx n) = Some d \<longrightarrow> \<not> SideClosed d n p tx)))"
  by (auto simp: sourceAroundStep_def split: option.splits)

lemma fold_disj:
  assumes "\<And>n acc. f n acc \<longleftrightarrow> acc \<or> c n"
  shows "fold f ns acc \<longleftrightarrow> acc \<or> (\<exists>n\<in>set ns. c n)"
  by (induction ns arbitrary: acc) (auto simp: assms)

text \<open>
  Claim C4, amended. A liquid is fed exactly when one of its neighbours other than the
  lower one holds a liquid of the same type that is directly above, or is a source, or is
  strictly deeper, and the displacer at that neighbour, if there is one, does not report
  the side towards the liquid closed. A displacer at the liquid's own cell is not asked.
\<close>

theorem sourceAround_iff:
  "sourceAround w b p tx \<longleftrightarrow>
     (\<exists>n\<in>set (Neighbours p (txRange w)). posY n \<noteq> posY p - 1
       \<and> (\<exists>side. txLiquid w tx n = Some side \<and> LiquidType side = LiquidType b
            \<and> (posY n = posY p + 1 \<or> source side \<or> LiquidDepth b < LiquidDepth side)
            \<and> (\<forall>d. asLiquidDisplacer (txBlock w tx n) = Some d \<longrightarrow> \<not> SideClosed d n p tx)))"
  unfolding sourceAround_def by (subst fold_disj[OF sourceAroundStep_eq]) simp

theorem sourceAround_iff_witness:
  "sourceAround (gridWorld feedScene) (water 4 False) (0, 0, 0) []
   \<and> txLiquid (gridWorld feedScene) [] (1, 0, 0) = Some (water 8 False)
   \<and> asLiquidDisplacer (txBlock (gridWorld feedScene) [] (1, 0, 0)) = None"
  using sourceAround_iff[of "gridWorld feedScene" "water 4 False" "(0, 0, 0)" "[]"]
  by (simp add: scene_defs feedScene_def Neighbours_def source_def sealedBlock_def)

text \<open>
  Claim C4 as stated fails: the water inside the sealed displacer is fed by the source
  next to it, although the displacer on its own side of the interface reports it closed.
\<close>

theorem sourceAround_ignores_own_displacer:
  "sourceAround (gridWorld feedScene) (water 4 False) (0, 0, 0) []
   \<and> \<not> sourceAroundSpec (gridWorld feedScene) (water 4 False) (0, 0, 0) []"
  by (simp add: sourceAround_def sourceAroundStep_def sourceAroundSpec_def feedsSpec_def
      interfaceClosedSpec_def scene_defs feedScene_def Neighbours_def source_def
      sealedBlock_def sealed_def)

section \<open>The outcomes of flowInto\<close>

lemma writes_append [simp]: "writes (evs @ evs') = writes evs @ writes evs'"
  by (induction evs rule: writes.induct) simp_all

lemma writes_DropItems [simp]: "writes (map (\<lambda>d. DropItem d p) drops) = []"
  by (induction drops) simp_all

text \<open>The branches of \<open>flowInto\<close> on a liquid, and on another block.\<close>

lemma flowInto_rejected:
  "\<not> falling \<Longrightarrow> LiquidDepth b - SpreadDecay b \<le> 0 \<Longrightarrow> flowInto w b src p tx falling = Inr (False, tx)"
  by (simp add: flowInto_def)

lemma flowInto_liquid:
  assumes "falling \<or> 0 < LiquidDepth b - SpreadDecay b" and "asLiquid (txBlock w tx p) = Some l"
  shows "flowInto w b src p tx falling =
           (if LiquidType l = LiquidType b then
              (if newDepthOf b falling \<le> LiquidDepth l \<or> LiquidFalling l then Inr (True, tx)
               else if HandleLiquidFlow w tx src p (WithDepth b (newDepthOf b falling) falling) (txBlock w tx p)
               then Inr (False, tx)
               else Inr (True, tx @ [SetLiquid p (Some (WithDepth b (newDepthOf b falling) falling))]))
            else Inr (False, tx @ [Harden l p src]))"
  using assms by (auto simp: flowInto_def newDepthOf_def Let_def)

lemma flowInto_block:
  assumes "falling \<or> 0 < LiquidDepth b - SpreadDecay b" and "asLiquid (txBlock w tx p) = None"
  shows "flowInto w b src p tx falling =
           (if asLiquidDisplacer (txBlock w tx p) \<noteq> None \<and> txLiquid w tx p \<noteq> None then Inr (False, tx)
            else if asLiquidRemovable (txBlock w tx p) = None
                  \<and> (case asLiquidDisplacer (txBlock w tx p) of
                        None \<Rightarrow> True
                      | Some d \<Rightarrow> \<not> CanDisplace d (WithDepth b (newDepthOf b falling) falling))
            then Inr (False, tx)
            else if HandleLiquidFlow w tx src p (WithDepth b (newDepthOf b falling) falling) (txBlock w tx p)
            then Inr (False, tx)
            else
              (case asLiquidRemovable (txBlock w tx p) of
                 Some hasLiquidDrops \<Rightarrow>
                   if hasLiquidDrops then
                     (case asBreakable (txBlock w tx p) of
                        Some drops \<Rightarrow>
                          Inr (True, tx @ (if isAir (txBlock w tx p) then [] else [SetBlockNil p])
                                       @ map (\<lambda>d. DropItem d p) drops
                                       @ [SetLiquid p (Some (WithDepth b (newDepthOf b falling) falling))])
                      | None \<Rightarrow> Inl LiquidDropsNotBreakable)
                   else Inr (True, tx @ (if isAir (txBlock w tx p) then [] else [SetBlockNil p])
                                      @ [SetLiquid p (Some (WithDepth b (newDepthOf b falling) falling))])
               | None \<Rightarrow> Inr (True, tx @ [SetLiquid p (Some (WithDepth b (newDepthOf b falling) falling))])))"
  using assms by (auto simp: flowInto_def newDepthOf_def Let_def split: option.splits)


lemma flowInto_writes:
  assumes "flowInto w b src p tx falling = Inr (ok, tx')"
  shows "\<exists>evs. tx' = tx @ evs
           \<and> set (writes evs) \<subseteq> {(p, WithDepth b (newDepthOf b falling) falling)}
           \<and> (writes evs \<noteq> [] \<longrightarrow> falling \<or> 0 < newDepthOf b falling)"
proof (cases "falling \<or> 0 < LiquidDepth b - SpreadDecay b")
  case False
  then show ?thesis using assms by (simp add: flowInto_rejected)
next
  case pass: True
  show ?thesis
  proof (cases "asLiquid (txBlock w tx p)")
    case (Some l)
    show ?thesis
      using assms pass unfolding flowInto_liquid[OF pass Some]
      by (auto simp: newDepthOf_def split: if_splits)
  next
    case None
    show ?thesis
      using assms pass unfolding flowInto_block[OF pass None]
      by (auto simp: newDepthOf_def split: if_splits option.splits)
  qed
qed

lemma flowInto_panic_iff:
  "flowInto w b src p tx falling = Inl e \<longleftrightarrow>
     e = LiquidDropsNotBreakable
     \<and> (falling \<or> 0 < LiquidDepth b - SpreadDecay b)
     \<and> asLiquid (txBlock w tx p) = None
     \<and> \<not> (asLiquidDisplacer (txBlock w tx p) \<noteq> None \<and> txLiquid w tx p \<noteq> None)
     \<and> \<not> HandleLiquidFlow w tx src p (WithDepth b (newDepthOf b falling) falling) (txBlock w tx p)
     \<and> asLiquidRemovable (txBlock w tx p) = Some True
     \<and> asBreakable (txBlock w tx p) = None"
proof (cases "falling \<or> 0 < LiquidDepth b - SpreadDecay b")
  case False
  then show ?thesis by (simp add: flowInto_rejected)
next
  case pass: True
  show ?thesis
  proof (cases "asLiquid (txBlock w tx p)")
    case (Some l)
    show ?thesis
      unfolding flowInto_liquid[OF pass Some] using Some by simp
  next
    case None
    show ?thesis
      unfolding flowInto_block[OF pass None] using pass None
      by (auto split: option.splits)
  qed
qed

text \<open>
  The callers of \<open>flowInto\<close>: the vertical call of \<open>tickLiquid\<close> passes \<open>falling = true\<close>, and
  the horizontal calls (along the paths and outwards) come after the early return on
  \<open>depth <= decay\<close>, which leaves the transaction as it is.
\<close>

lemma horizontalFlow_shallow:
  "LiquidDepth b \<le> SpreadDecay b \<Longrightarrow> horizontalFlow w b p tx displacer canFlowBelow pool = Inr (tx, pool)"
  by (simp add: horizontalFlow_def)

text \<open>
  Claim C6. A flow step whose target holds a liquid of another type than the flowing
  liquid calls the target liquid's \<open>Harden\<close>, writes no liquid and returns false. A flow
  step of the engine is falling (the vertical call) or made with a depth above the spread
  decay (the horizontal calls, see \<open>horizontalFlow_shallow\<close>); this is the third hypothesis.
\<close>

theorem flowInto_different_liquid_hardens:
  assumes "asLiquid (txBlock w tx p) = Some l" and "LiquidType l \<noteq> LiquidType b"
    and "falling \<or> SpreadDecay b < LiquidDepth b"
  shows "flowInto w b src p tx falling = Inr (False, tx @ [Harden l p src])
         \<and> writes [Harden l p src] = []"
  using assms by (simp add: flowInto_liquid)

theorem flowInto_different_liquid_hardens_witness:
  "asLiquid (txBlock (gridWorld (lavaScene 8)) [] (1, 0, 0)) = Some (lava 8 False)
   \<and> LiquidType (lava 8 False) \<noteq> LiquidType (water 8 False)
   \<and> SpreadDecay (water 8 False) < LiquidDepth (water 8 False)
   \<and> flowInto (gridWorld (lavaScene 8)) (water 8 False) (0, 0, 0) (1, 0, 0) [] False
       = Inr (False, [Harden (lava 8 False) (1, 0, 0) (0, 0, 0)])"
  using flowInto_different_liquid_hardens[of "gridWorld (lavaScene 8)" "[]" "(1, 0, 0)" "lava 8 False"
      "water 8 False" False "(0, 0, 0)"]
  by (simp add: scene_defs lavaScene_def)

section \<open>The breadth-first order of the search\<close>

declare searchLoop.simps [simp del]

lemma pending_PushBack:
  "qi q \<le> length (qnodes q) \<Longrightarrow> pending (PushBack q n) = pending q @ [n]"
  by (simp add: pending_def PushBack_def)

lemma spreadNeighbour_cases:
  "spreadNeighbour w b src tx n q = (False, q)
   \<or> (spreadNeighbour w b src tx n q = (True, q) \<and> Len n \<le> shortestPath q)
   \<or> (spreadNeighbour w b src tx n q = (False, PushBack q n) \<and> Len n \<le> shortestPath q)"
  by (simp add: spreadNeighbour_def)

lemma visit_cases:
  "visit w b p tx displacer first n (q, ps) = (q, ps)
   \<or> (visit w b p tx displacer first n (q, ps) = (q\<lparr>shortestPath := Len n\<rparr>, ps @ [Path n p])
        \<and> Len n \<le> shortestPath q)
   \<or> (visit w b p tx displacer first n (q, ps) = (PushBack q n, ps) \<and> Len n \<le> shortestPath q)"
  using spreadNeighbour_cases[of w b p tx n q]
  by (auto simp: visit_def)

lemma searchInv_bound:
  assumes "searchInv l q ps" "Len n = l + 1" "Len n \<le> shortestPath q"
  shows "searchInv l (q\<lparr>shortestPath := Len n\<rparr>) (ps @ [Path n p])"
proof -
  have "length (Path n p) = nat (l + 1)" "Path n p \<noteq> []"
    using assms Path_length[of n p] by (auto simp: searchInv_def)
  moreover have "\<forall>path\<in>set ps. length path = nat (l + 1) \<and> path \<noteq> []"
  proof (cases "ps = []")
    case False
    then have "shortestPath q = l + 1" using assms by (auto simp: searchInv_def)
    then show ?thesis using assms(1) by (simp add: searchInv_def)
  qed simp
  ultimately show ?thesis
    using assms by (simp add: searchInv_def pending_def)
qed

lemma searchInv_push:
  assumes "searchInv l q ps" "Len n = l + 1"
  shows "searchInv l (PushBack q n) ps"
proof -
  have "pending (PushBack q n) = pending q @ [n]"
    using assms by (simp add: pending_PushBack searchInv_def)
  moreover have "sorted (map Len (pending q @ [n]))"
    using assms by (auto simp: searchInv_def sorted_append)
  ultimately show ?thesis
    using assms by (auto simp: searchInv_def PushBack_def)
qed

lemma visit_inv:
  assumes "Len n = l + 1" "searchInv l q ps" "visit w b p tx displacer first n (q, ps) = (q', ps')"
  shows "searchInv l q' ps'"
  using visit_cases[of w b p tx displacer first n q ps] assms
    searchInv_bound[of l q ps n p] searchInv_push[of l q ps n]
  by auto

lemma expand_inv:
  assumes "searchInv (Len node) q ps" "expand w b p tx displacer decay first node (q, ps) = (q', ps')"
  shows "searchInv (Len node) q' ps'"
proof -
  obtain nA nB nC nD where n: "neighbours node (decay * 2) = (nA, nB, nC, nD)"
    by (metis prod_cases4)
  have l: "Len nA = Len node + 1" "Len nB = Len node + 1" "Len nC = Len node + 1" "Len nD = Len node + 1"
    using n by (auto simp: neighbours_def)
  obtain q1 p1 where v1: "visit w b p tx displacer first nA (q, ps) = (q1, p1)" by fastforce
  obtain q2 p2 where v2: "visit w b p tx displacer first nB (q1, p1) = (q2, p2)" by fastforce
  obtain q3 p3 where v3: "visit w b p tx displacer first nC (q2, p2) = (q3, p3)" by fastforce
  obtain q4 p4 where v4: "visit w b p tx displacer first nD (q3, p3) = (q4, p4)" by fastforce
  have e: "q' = q4" "ps' = p4" using assms n v1 v2 v3 v4 by (simp_all add: expand_def)
  have "searchInv (Len node) q1 p1" by (rule visit_inv[OF l(1) assms(1) v1])
  then have "searchInv (Len node) q2 p2" by (rule visit_inv[OF l(2) _ v2])
  then have "searchInv (Len node) q3 p3" by (rule visit_inv[OF l(3) _ v3])
  then have "searchInv (Len node) q4 p4" by (rule visit_inv[OF l(4) _ v4])
  then show ?thesis using e by simp
qed

lemma Front_inv:
  assumes "searchInv l q ps" "Front q = Inr (node, q1)"
  shows "searchInv (Len node) q1 ps"
proof -
  have i: "qi q < length (qnodes q)" and n: "node = qnodes q ! qi q" and q1: "q1 = q\<lparr>qi := qi q + 1\<rparr>"
    using assms(2) by (auto simp: Front_def split: if_splits)
  have pq: "pending q = node # pending q1"
    using i n q1 by (simp add: pending_def Cons_nth_drop_Suc)
  have "l \<le> Len node" "Len node \<le> l + 1" "\<forall>m\<in>set (pending q1). Len node \<le> Len m \<and> Len m \<le> l + 1"
    "sorted (map Len (pending q1))"
    using assms(1) pq by (auto simp: searchInv_def)
  then show ?thesis
    using assms(1) i q1 by (auto simp: searchInv_def)
qed

lemma Front_ok:
  assumes "qi q \<le> length (qnodes q)" "queueLen q \<noteq> 0"
  shows "\<exists>node q1. Front q = Inr (node, q1)"
  using assms by (auto simp: Front_def queueLen_def)

lemma searchLoop_inv:
  assumes "\<exists>l. searchInv l queue paths"
  shows "\<exists>paths' queue' l'. searchLoop w b p tx displacer decay queue paths first = Inr (paths', queue')
           \<and> searchInv l' queue' paths' \<and> queueLen queue' = 0"
  using assms
proof (induction w b p tx displacer decay queue paths first rule: searchLoop.induct)
  case (1 w b p tx displacer decay queue paths first)
  then obtain l where inv: "searchInv l queue paths" by blast
  show ?case
  proof (cases "queueLen queue = 0")
    case True
    then show ?thesis using inv by (subst searchLoop.simps) auto
  next
    case False
    then obtain node q1 where f: "Front queue = Inr (node, q1)"
      using Front_ok[of queue] inv by (auto simp: searchInv_def)
    obtain q2 p2 where e: "expand w b p tx displacer decay first node (q1, paths) = (q2, p2)"
      by fastforce
    have "searchInv (Len node) q2 p2"
      using expand_inv[OF Front_inv[OF inv f] e] .
    then have "\<exists>paths' queue' l'. searchLoop w b p tx displacer decay q2 p2 False = Inr (paths', queue')
           \<and> searchInv l' queue' paths' \<and> queueLen queue' = 0"
      using "1.IH"[of "(node, q1)" node q1 q2 p2] False f e by auto
    then show ?thesis
      using False f e by (subst searchLoop.simps) simp
  qed
qed

section \<open>The search ends, and the pooled queue\<close>

lemma Reset_eq_New: "Reset q = liquidQueueNew"
  by (simp add: Reset_def liquidQueueNew_def)

lemma poolGet_reset:
  "poolReset pool \<Longrightarrow> poolGet pool = (liquidQueueNew, tl pool)"
  by (cases pool) (auto simp: poolReset_def poolGet_def)

lemma searchInv_seed: "searchInv 0 (seedQueue b p) []"
  by (simp add: searchInv_def seedQueue_def PushBack_def liquidQueueNew_def pending_def)

lemma searchIter_mono:
  "searchIter n w b p tx displacer decay queue paths first = Some r \<Longrightarrow> n \<le> m
     \<Longrightarrow> searchIter m w b p tx displacer decay queue paths first = Some r"
proof (induction n arbitrary: m queue paths first)
  case 0
  then show ?case by simp
next
  case (Suc n)
  then obtain m' where m: "m = Suc m'" "n \<le> m'" by (cases m) auto
  show ?case
    using Suc.prems(1) Suc.IH[of _ _ _ m'] m
    by (auto split: if_splits sum.splits prod.splits)
qed

lemma searchIter_fuel:
  "searchIter (Suc (queueWeight queue)) w b p tx displacer decay queue paths first
     = Some (searchLoop w b p tx displacer decay queue paths first)"
proof (induction "queueWeight queue" arbitrary: queue paths first rule: less_induct)
  case less
  show ?case
  proof (cases "queueLen queue = 0")
    case True
    then show ?thesis by (simp add: searchLoop.simps)
  next
    case False
    show ?thesis
    proof (cases "Front queue")
      case (Inl e)
      then show ?thesis using False by (simp add: searchLoop.simps)
    next
      case (Inr nq)
      obtain node q1 where nq: "nq = (node, q1)" by (cases nq)
      obtain q2 p2 where e: "expand w b p tx displacer decay first node (q1, paths) = (q2, p2)"
        by fastforce
      have d: "queueWeight q2 < queueWeight queue"
        using searchLoop_decreases[of queue node q1] Inr nq e by simp
      have "searchIter (Suc (queueWeight q2)) w b p tx displacer decay q2 p2 False
              = Some (searchLoop w b p tx displacer decay q2 p2 False)"
        by (rule less[OF d])
      then have "searchIter (queueWeight queue) w b p tx displacer decay q2 p2 False
              = Some (searchLoop w b p tx displacer decay q2 p2 False)"
        using d searchIter_mono[of "Suc (queueWeight q2)" w b p tx displacer decay q2 p2 False _ "queueWeight queue"]
        by simp
      then show ?thesis
        using False Inr nq e by (subst searchLoop.simps) simp
    qed
  qed
qed


lemma calculateLiquidPaths_seed:
  "calculateLiquidPaths w b p tx displacer pool =
     (case searchLoop w b p tx displacer (word_of_int (SpreadDecay b))
             (PushBack (fst (poolGet pool))
                (LiquidNode (posX p) (posZ p) (word_of_int (LiquidDepth b)) None)) [] True of
        Inl e \<Rightarrow> Inl e
      | Inr (paths, queue') \<Rightarrow> Inr (paths, liquidQueueNew # snd (poolGet pool)))"
  by (simp add: calculateLiquidPaths_def poolPut_def Reset_eq_New split: prod.splits sum.splits)

lemma calculateLiquidPaths_reset:
  assumes "poolReset pool"
  shows "\<exists>paths queue'.
           searchLoop w b p tx displacer (word_of_int (SpreadDecay b)) (seedQueue b p) [] True
             = Inr (paths, queue')
           \<and> queueLen queue' = 0
           \<and> calculateLiquidPaths w b p tx displacer pool = Inr (paths, liquidQueueNew # tl pool)
           \<and> (\<forall>path\<in>set paths. length path = nat (shortestPath queue') \<and> path \<noteq> [])"
proof -
  obtain paths queue' l where
    s: "searchLoop w b p tx displacer (word_of_int (SpreadDecay b)) (seedQueue b p) [] True
          = Inr (paths, queue')"
    and i: "searchInv l queue' paths" and z: "queueLen queue' = 0"
    using searchLoop_inv[of "seedQueue b p" "[]"] searchInv_seed[of b p] by blast
  show ?thesis
    using s i z poolGet_reset[OF assms]
    by (auto simp: calculateLiquidPaths_seed seedQueue_def searchInv_def)
qed

lemma sint_neighbour_depth:
  assumes "1 \<le> d" "d \<le> 63" "- 3 < sint (x :: 8 word)"
  shows "sint (x - word_of_int d * 2) = sint x - 2 * d"
proof -
  have "sint (word_of_int d :: 8 word) = d"
    using assms by (simp add: sint_sbintrunc' signed_take_bit_int_eq_self)
  then have "sint (word_of_int d * 2 :: 8 word) = 2 * d"
    using assms by (simp add: sint_word_ariths signed_take_bit_int_eq_self)
  moreover have "sint x \<le> 127" using sint_lt[of x] by simp
  ultimately show ?thesis
    using assms by (simp add: sint_word_ariths signed_take_bit_int_eq_self)
qed

text \<open>
  Claim C9. For every liquid and every grid the path search ends: started on the seeded
  queue, the loop leaves after at most \<open>queueWeight\<close> + 1 tests of \<open>queue.Len()\<close> with the
  queue empty and without a panic, and \<open>calculateLiquidPaths\<close> returns. Each neighbour's
  depth is the node's depth less \<open>2 * spreadDecay\<close> (exactly so while the \<open>int8\<close> arithmetic
  does not wrap, that is for a spread decay from 1 to 63 and a node that was enqueued),
  and a neighbour whose depth plus 3 is not positive is never enqueued.
\<close>

theorem path_search_terminates:
  assumes "poolReset pool"
  shows "(\<exists>paths queue'.
            searchIter (Suc (queueWeight (seedQueue b p))) w b p tx displacer
                (word_of_int (SpreadDecay b)) (seedQueue b p) [] True = Some (Inr (paths, queue'))
            \<and> queueLen queue' = 0
            \<and> calculateLiquidPaths w b p tx displacer pool = Inr (paths, liquidQueueNew # tl pool))
         \<and> (1 \<le> SpreadDecay b \<and> SpreadDecay b \<le> 63 \<and> - 3 < sint (ndepth node) \<longrightarrow>
              (case neighbours node (word_of_int (SpreadDecay b) * 2) of
                 (nA, nB, nC, nD) \<Rightarrow>
                   sint (ndepth nA) = sint (ndepth node) - 2 * SpreadDecay b
                   \<and> sint (ndepth nB) = sint (ndepth node) - 2 * SpreadDecay b
                   \<and> sint (ndepth nC) = sint (ndepth node) - 2 * SpreadDecay b
                   \<and> sint (ndepth nD) = sint (ndepth node) - 2 * SpreadDecay b))
         \<and> (sint (ndepth n + 3) \<le> 0 \<longrightarrow> spreadNeighbour w b p tx n queue = (False, queue))"
proof -
  have "\<exists>paths queue'.
            searchIter (Suc (queueWeight (seedQueue b p))) w b p tx displacer
                (word_of_int (SpreadDecay b)) (seedQueue b p) [] True = Some (Inr (paths, queue'))
            \<and> queueLen queue' = 0
            \<and> calculateLiquidPaths w b p tx displacer pool = Inr (paths, liquidQueueNew # tl pool)"
    using calculateLiquidPaths_reset[OF assms, of w b p tx displacer]
      searchIter_fuel[of "seedQueue b p" w b p tx displacer "word_of_int (SpreadDecay b)" "[]" True]
    by auto
  moreover have "1 \<le> SpreadDecay b \<and> SpreadDecay b \<le> 63 \<and> - 3 < sint (ndepth node) \<longrightarrow>
              (case neighbours node (word_of_int (SpreadDecay b) * 2) of
                 (nA, nB, nC, nD) \<Rightarrow>
                   sint (ndepth nA) = sint (ndepth node) - 2 * SpreadDecay b
                   \<and> sint (ndepth nB) = sint (ndepth node) - 2 * SpreadDecay b
                   \<and> sint (ndepth nC) = sint (ndepth node) - 2 * SpreadDecay b
                   \<and> sint (ndepth nD) = sint (ndepth node) - 2 * SpreadDecay b)"
    by (simp add: neighbours_def sint_neighbour_depth)
  moreover have "sint (ndepth n + 3) \<le> 0 \<longrightarrow> spreadNeighbour w b p tx n queue = (False, queue)"
    by (simp add: spreadNeighbour_def)
  ultimately show ?thesis by blast
qed

theorem path_search_terminates_witness:
  "poolReset []
   \<and> (\<exists>paths queue'.
        searchIter (Suc (queueWeight (seedQueue (water 8 False) (0, 0, 0)))) (gridWorld decayScene)
            (water 8 False) (0, 0, 0) [] None 1 (seedQueue (water 8 False) (0, 0, 0)) [] True
          = Some (Inr (paths, queue'))
        \<and> queueLen queue' = 0
        \<and> calculateLiquidPaths (gridWorld decayScene) (water 8 False) (0, 0, 0) [] None []
            = Inr (paths, [liquidQueueNew]))
   \<and> sint (ndepth (fst (neighbours (LiquidNode 0 0 8 None) 2))) = 6
   \<and> spreadNeighbour (gridWorld decayScene) (water 8 False) (0, 0, 0) []
        (LiquidNode 4 0 (- 4) None) liquidQueueNew = (False, liquidQueueNew)"
  using path_search_terminates[of "[]" "water 8 False" "(0, 0, 0)" "gridWorld decayScene" "[]" None
      "LiquidNode 0 0 8 None" "LiquidNode 4 0 (- 4) None" liquidQueueNew]
  by (simp add: poolReset_def water_def neighbours_def)

text \<open>
  Claim C8. After any search the pool hands out the queue that was put back, which is
  indistinguishable from a new one: the next search, for whatever liquid, position and
  grid, returns what the same search returns with a freshly allocated queue, and puts
  back a reset queue again. Only length, elements, cursor and bound of a queue are read
  by the search; the capacity kept by \<open>nodes[:0]\<close> is not observable.
\<close>

theorem reused_queue_as_fresh:
  assumes "calculateLiquidPaths w b p tx displacer pool = Inr (paths, pool1)"
  shows "poolGet pool1 = (liquidQueueNew, snd (poolGet pool))
         \<and> calculateLiquidPaths w' b' p' tx' displacer' pool1 =
             (case calculateLiquidPaths w' b' p' tx' displacer' [] of
                Inl e \<Rightarrow> Inl e
              | Inr (paths', pool') \<Rightarrow> Inr (paths', pool1))"
proof -
  have p1: "pool1 = liquidQueueNew # snd (poolGet pool)"
    using assms by (auto simp: calculateLiquidPaths_seed split: sum.splits)
  then have g: "poolGet pool1 = (liquidQueueNew, snd (poolGet pool))"
    by (simp add: poolGet_def)
  have n: "poolGet [] = (liquidQueueNew, [])" by (simp add: poolGet_def)
  show ?thesis
    using g by (simp add: calculateLiquidPaths_seed n p1 split: sum.splits)
qed

theorem reused_queue_as_fresh_witness:
  "\<exists>paths paths'.
     calculateLiquidPaths (gridWorld decayScene) (water 8 False) (0, 0, 0) [] None []
       = Inr (paths, [liquidQueueNew])
     \<and> calculateLiquidPaths (gridWorld (lavaScene 8)) (lava 8 False) (1, 0, 0) [] None [liquidQueueNew]
       = Inr (paths', [liquidQueueNew])
     \<and> calculateLiquidPaths (gridWorld (lavaScene 8)) (lava 8 False) (1, 0, 0) [] None []
       = Inr (paths', [liquidQueueNew])"
proof -
  have r: "poolReset []" by (simp add: poolReset_def)
  obtain paths where
    a: "calculateLiquidPaths (gridWorld decayScene) (water 8 False) (0, 0, 0) [] None []
          = Inr (paths, [liquidQueueNew])"
    using calculateLiquidPaths_reset[OF r, of "gridWorld decayScene" "water 8 False" "(0, 0, 0)" "[]" None]
    by auto
  obtain paths' where
    b: "calculateLiquidPaths (gridWorld (lavaScene 8)) (lava 8 False) (1, 0, 0) [] None []
          = Inr (paths', [liquidQueueNew])"
    using calculateLiquidPaths_reset[OF r, of "gridWorld (lavaScene 8)" "lava 8 False" "(1, 0, 0)" "[]" None]
    by auto
  show ?thesis
    using reused_queue_as_fresh[OF a, of "gridWorld (lavaScene 8)" "lava 8 False" "(1, 0, 0)" "[]" None] a b
    by simp
qed

section \<open>Panics\<close>

lemma flowInto_error: "flowInto w b src p tx falling = Inl e \<Longrightarrow> e = LiquidDropsNotBreakable"
  by (simp add: flowInto_panic_iff)

lemma flowInto_false:
  assumes "flowInto w b src p tx falling = Inr (False, tx')"
  shows "tx' = tx \<or> (\<exists>l. asLiquid (txBlock w tx p) = Some l \<and> tx' = tx @ [Harden l p src])"
proof (cases "falling \<or> 0 < LiquidDepth b - SpreadDecay b")
  case False
  then show ?thesis using assms by (simp add: flowInto_rejected)
next
  case pass: True
  show ?thesis
  proof (cases "asLiquid (txBlock w tx p)")
    case (Some l)
    show ?thesis
      using assms unfolding flowInto_liquid[OF pass Some] using Some
      by (auto split: if_splits)
  next
    case None
    show ?thesis
      using assms unfolding flowInto_block[OF pass None]
      by (auto split: if_splits option.splits)
  qed
qed

lemma fold_no_index_error:
  assumes "\<And>x r. x \<in> set xs \<Longrightarrow> r \<noteq> Inl IndexOutOfRange \<Longrightarrow> f x r \<noteq> Inl IndexOutOfRange"
    and "r0 \<noteq> Inl IndexOutOfRange"
  shows "fold f xs r0 \<noteq> Inl IndexOutOfRange"
  using assms by (induction xs arbitrary: r0) auto

lemma spreadOutwardsStep_no_index_error:
  "r \<noteq> Inl IndexOutOfRange \<Longrightarrow> spreadOutwardsStep w b p displacer n r \<noteq> Inl IndexOutOfRange"
  by (auto simp: spreadOutwardsStep_def dest: flowInto_error split: sum.splits prod.splits)

lemma flowPathStep_no_index_error:
  "path \<noteq> [] \<Longrightarrow> r \<noteq> Inl IndexOutOfRange \<Longrightarrow> flowPathStep w b p n path r \<noteq> Inl IndexOutOfRange"
  by (auto simp: flowPathStep_def dest: flowInto_error split: sum.splits prod.splits list.splits)

lemma spreadOutwards_no_index_error: "spreadOutwards w b p tx displacer \<noteq> Inl IndexOutOfRange"
  unfolding spreadOutwards_def
  by (rule fold_no_index_error) (simp_all add: spreadOutwardsStep_no_index_error)

lemma horizontalFlow_no_index_error:
  assumes "poolReset pool"
  shows "horizontalFlow w b p tx displacer canFlowBelow pool \<noteq> Inl IndexOutOfRange"
proof -
  obtain paths where c: "calculateLiquidPaths w b p tx displacer pool = Inr (paths, liquidQueueNew # tl pool)"
    and ne: "\<forall>path\<in>set paths. path \<noteq> []"
    using calculateLiquidPaths_reset[OF assms, of w b p tx displacer] by blast
  have "fold (flowPathStep w b p n) paths (Inr tx) \<noteq> Inl IndexOutOfRange" for n
    by (rule fold_no_index_error) (simp_all add: flowPathStep_no_index_error ne)
  then show ?thesis
    using c spreadOutwards_no_index_error[of w b p tx displacer]
    by (auto simp: horizontalFlow_def split: sum.splits list.splits)
qed

lemma verticalFlow_no_index_error:
  "verticalFlow w b p tx displacer canFlowBelow \<noteq> Inl IndexOutOfRange"
  by (auto simp: verticalFlow_def dest: flowInto_error split: sum.splits)

lemma tickLiquid_no_index_error:
  assumes "poolReset pool"
  shows "tickLiquid w b p tx pool \<noteq> Inl IndexOutOfRange"
  using verticalFlow_no_index_error[of w b p tx] horizontalFlow_no_index_error[OF assms]
  by (auto simp: tickLiquid_def Let_def split: sum.splits)

text \<open>
  Claim C7. \<open>flowInto\<close> panics exactly when it gets as far as removing the block (the step
  passes the depth check, the target is no liquid and no filled displacer, the flow hook
  does not cancel) and the block declares liquid drops without being breakable. When
  \<open>flowInto\<close> returns false it has changed nothing, or it has called \<open>Harden\<close> and nothing
  else. A tick raises no other panic: the index expressions \<open>q.nodes[q.i]\<close>, \<open>paths[0]\<close> and
  \<open>path[0]\<close> stay in range. The functions return a bool or nothing, never an error.
\<close>

theorem only_fatal_condition:
  "(flowInto w b src p tx falling = Inl e \<longleftrightarrow>
      e = LiquidDropsNotBreakable
      \<and> (falling \<or> 0 < LiquidDepth b - SpreadDecay b)
      \<and> asLiquid (txBlock w tx p) = None
      \<and> \<not> (asLiquidDisplacer (txBlock w tx p) \<noteq> None \<and> txLiquid w tx p \<noteq> None)
      \<and> \<not> HandleLiquidFlow w tx src p (WithDepth b (newDepthOf b falling) falling) (txBlock w tx p)
      \<and> asLiquidRemovable (txBlock w tx p) = Some True
      \<and> asBreakable (txBlock w tx p) = None)
   \<and> (flowInto w b src p tx falling = Inr (False, tx') \<longrightarrow>
         tx' = tx \<or> (\<exists>l. asLiquid (txBlock w tx p) = Some l \<and> tx' = tx @ [Harden l p src]))
   \<and> (poolReset pool \<and> tickLiquid w b0 p0 tx0 pool = Inl e0 \<longrightarrow> e0 = LiquidDropsNotBreakable)"
proof -
  have "poolReset pool \<and> tickLiquid w b0 p0 tx0 pool = Inl e0 \<longrightarrow> e0 = LiquidDropsNotBreakable"
    using tickLiquid_no_index_error[of pool w b0 p0 tx0] by (cases e0) auto
  then show ?thesis
    using flowInto_panic_iff[of w b src p tx falling e] flowInto_false[of w b src p tx falling tx']
    by blast
qed

theorem only_fatal_condition_witness:
  "flowInto (gridWorld (dropsScene brokenPlant)) (water 8 False) (0, 0, 0) (1, 0, 0) [] False
     = Inl LiquidDropsNotBreakable
   \<and> asLiquidRemovable (txBlock (gridWorld (dropsScene brokenPlant)) [] (1, 0, 0)) = Some True
   \<and> asBreakable (txBlock (gridWorld (dropsScene brokenPlant)) [] (1, 0, 0)) = None
   \<and> flowInto (gridWorld (dropsScene stone)) (water 8 False) (0, 0, 0) (1, 0, 0) [] False
       = Inr (False, [])
   \<and> poolReset []"
  using only_fatal_condition[of "gridWorld (dropsScene brokenPlant)" "water 8 False" "(0, 0, 0)" "(1, 0, 0)"
      "[]" False LiquidDropsNotBreakable "[]" "[]" "water 8 False" "(0, 0, 0)" "[]" LiquidDropsNotBreakable]
  by (simp add: scene_defs dropsScene_def brokenPlant_def newDepthOf_def poolReset_def flowInto_def)

section \<open>Searches that find no drop\<close>

lemma spreadNeighbour_noDrop:
  assumes "\<And>x z. canFlowInto w b tx (x, posY src, z) True
              \<Longrightarrow> \<not> canFlowInto w b tx (x, posY src - 1, z) False"
  shows "fst (spreadNeighbour w b src tx n q) = False"
  using assms by (auto simp: spreadNeighbour_def)

lemma visit_noDrop:
  assumes "\<And>x z. canFlowInto w b tx (x, posY p, z) True
              \<Longrightarrow> \<not> canFlowInto w b tx (x, posY p - 1, z) False"
  shows "snd (visit w b p tx displacer first n (q, ps)) = ps"
  using spreadNeighbour_noDrop[of w b tx p n q, OF assms]
  by (auto simp: visit_def split: prod.splits)

lemma expand_noDrop:
  assumes "\<And>x z. canFlowInto w b tx (x, posY p, z) True
              \<Longrightarrow> \<not> canFlowInto w b tx (x, posY p - 1, z) False"
  shows "snd (expand w b p tx displacer decay first node (q, ps)) = ps"
proof -
  have v: "snd (visit w b p tx displacer first n s) = snd s" for n s
    using visit_noDrop[of w b tx p displacer first n "fst s" "snd s", OF assms] by simp
  show ?thesis
    by (simp add: expand_def v split: prod.splits)
qed

lemma searchLoop_noDrop:
  assumes "\<And>x z. canFlowInto w b tx (x, posY p, z) True
              \<Longrightarrow> \<not> canFlowInto w b tx (x, posY p - 1, z) False"
    and "searchLoop w b p tx displacer decay queue paths first = Inr (paths', queue')"
  shows "paths' = paths"
  using assms
proof (induction w b p tx displacer decay queue paths first rule: searchLoop.induct)
  case (1 w b p tx displacer decay queue paths first)
  show ?case
  proof (cases "queueLen queue = 0")
    case True
    then show ?thesis using "1.prems"(2) by (simp add: searchLoop.simps)
  next
    case False
    then obtain node q1 where f: "Front queue = Inr (node, q1)"
      using "1.prems"(2) by (subst (asm) searchLoop.simps) (auto split: sum.splits)
    obtain q2 p2 where e: "expand w b p tx displacer decay first node (q1, paths) = (q2, p2)"
      by fastforce
    have p2: "p2 = paths"
      using expand_noDrop[of w b tx p displacer decay first node q1 paths, OF "1.prems"(1)] e by simp
    have "searchLoop w b p tx displacer decay q2 p2 False = Inr (paths', queue')"
      using "1.prems"(2) False f e by (subst (asm) searchLoop.simps) simp
    then have "paths' = p2"
      using "1.IH"[of "(node, q1)" node q1 q2 p2] False f e "1.prems"(1) by auto
    then show ?thesis using p2 by simp
  qed
qed

lemma calculateLiquidPaths_noDrop:
  assumes "poolReset pool"
    and "\<And>x z. canFlowInto w b tx (x, posY p, z) True
              \<Longrightarrow> \<not> canFlowInto w b tx (x, posY p - 1, z) False"
  shows "calculateLiquidPaths w b p tx displacer pool = Inr ([], liquidQueueNew # tl pool)"
proof -
  obtain paths queue' where
    s: "searchLoop w b p tx displacer (word_of_int (SpreadDecay b)) (seedQueue b p) [] True
          = Inr (paths, queue')"
    and c: "calculateLiquidPaths w b p tx displacer pool = Inr (paths, liquidQueueNew # tl pool)"
    using calculateLiquidPaths_reset[OF assms(1), of w b p tx displacer] by blast
  have "paths = []"
    using searchLoop_noDrop[OF assms(2) s] by simp
  then show ?thesis using c by simp
qed

section \<open>Flow along the paths\<close>

lemma fold_flowPathStep:
  assumes "\<forall>path\<in>set ps. length path \<le> n \<and> path \<noteq> []"
  shows "fold (flowPathStep w b p n) ps r =
         fold (\<lambda>target r. case r of
                        Inl e \<Rightarrow> Inl e
                      | Inr tx' \<Rightarrow> (case flowInto w b p target tx' False of
                                     Inl e \<Rightarrow> Inl e
                                   | Inr (ok, tx'') \<Rightarrow> Inr tx''))
          (map hd ps) r"
  using assms
proof (induction ps arbitrary: r)
  case Nil
  show ?case by simp
next
  case (Cons path ps)
  then obtain t rest where path: "path = t # rest" by (cases path) auto
  have "flowPathStep w b p n path r =
          (case r of Inl e \<Rightarrow> Inl e
           | Inr tx' \<Rightarrow> (case flowInto w b p (hd path) tx' False of
                            Inl e \<Rightarrow> Inl e | Inr (ok, tx'') \<Rightarrow> Inr tx''))"
    using Cons.prems path by (simp add: flowPathStep_def split: sum.splits)
  then show ?case using Cons by simp
qed

lemma minimalPaths_same_length:
  "\<forall>path\<in>set paths. length path = n \<Longrightarrow> minimalPathsSpec paths = paths"
  by (simp add: minimalPathsSpec_def list_all_iff)

text \<open>
  Claim C3. \<open>horizontalFlow\<close> is the part of \<open>tickLiquid\<close> from line 133 on. When the path
  search returns paths, the tick calls \<open>flowInto\<close>, in the order of discovery, on the first
  position of every returned path of minimal length and on nothing else; no returned
  path is empty. (The search returns only paths of one length, so the test against the
  length of the first path selects exactly the minimal ones.)
\<close>

theorem flow_along_minimal_paths:
  assumes "poolReset pool" and "SpreadDecay b < LiquidDepth b" and "source b \<or> \<not> canFlowBelow"
    and "calculateLiquidPaths w b p tx displacer pool = Inr (paths, pool')" and "paths \<noteq> []"
  shows "horizontalFlow w b p tx displacer canFlowBelow pool =
           (case flowIntoEachSpec w b p (map hd (minimalPathsSpec paths)) tx of
              Inl e \<Rightarrow> Inl e
            | Inr tx' \<Rightarrow> Inr (tx', pool'))
         \<and> (\<forall>path\<in>set paths. path \<noteq> [])"
proof -
  obtain queue' :: liquidQueue where
    l: "\<forall>path\<in>set paths. length path = nat (shortestPath queue') \<and> path \<noteq> []"
    using calculateLiquidPaths_reset[OF assms(1), of w b p tx displacer] assms(4) by auto
  obtain path0 rest where ps: "paths = path0 # rest" using assms(5) by (cases paths) auto
  have m: "minimalPathsSpec paths = paths"
    using l by (intro minimalPaths_same_length[of paths "nat (shortestPath queue')"]) simp
  have "fold (flowPathStep w b p (length path0)) paths (Inr tx) = flowIntoEachSpec w b p (map hd paths) tx"
    unfolding flowIntoEachSpec_def
    by (rule fold_flowPathStep) (use l ps in auto)
  then show ?thesis
    using assms(2,3,4) ps m l by (simp add: horizontalFlow_def)
qed

lemma twoHoles_paths:
  "calculateLiquidPaths (gridWorld twoHoles) (water 8 False) (0, 0, 0) [] None []
     = Inr ([[(- 1, 0, 0)], [(1, 0, 0)]], [liquidQueueNew])"
  by (simp add: calculateLiquidPaths_def poolGet_def poolPut_def Reset_def liquidQueueNew_def
      searchLoop.simps queueLen_def Front_def PushBack_def expand_def neighbours_def visit_def
      spreadNeighbour_def canFlowInto_def Path_def scene_defs twoHoles_def Let_def)

theorem flow_along_minimal_paths_witness:
  "poolReset []
   \<and> SpreadDecay (water 8 False) < LiquidDepth (water 8 False)
   \<and> source (water 8 False)
   \<and> calculateLiquidPaths (gridWorld twoHoles) (water 8 False) (0, 0, 0) [] None []
        = Inr ([[(- 1, 0, 0)], [(1, 0, 0)]], [liquidQueueNew])
   \<and> tickLiquid (gridWorld twoHoles) (water 8 False) (0, 0, 0) [] []
        = Inr ([SetLiquid (- 1, 0, 0) (Some (water 7 False)), SetLiquid (1, 0, 0) (Some (water 7 False))],
               [liquidQueueNew])"
proof -
  have r: "poolReset []" by (simp add: poolReset_def)
  have s: "source (water 8 False)" "SpreadDecay (water 8 False) < LiquidDepth (water 8 False)"
    by (simp_all add: source_def water_def)
  have h: "horizontalFlow (gridWorld twoHoles) (water 8 False) (0, 0, 0) [] None False []
        = Inr ([SetLiquid (- 1, 0, 0) (Some (water 7 False)), SetLiquid (1, 0, 0) (Some (water 7 False))],
               [liquidQueueNew])"
    using flow_along_minimal_paths[OF r s(2) _ twoHoles_paths, of False] s(1)
    by (simp add: minimalPathsSpec_def flowIntoEachSpec_def flowInto_def WithDepth_def scene_defs twoHoles_def)
  have "tickLiquid (gridWorld twoHoles) (water 8 False) (0, 0, 0) [] []
          = horizontalFlow (gridWorld twoHoles) (water 8 False) (0, 0, 0) [] None False []"
    by (simp add: tickLiquid_def source_def verticalFlow_def canFlowInto_def SideDown_def
        scene_defs twoHoles_def)
  then show ?thesis using r s h twoHoles_paths by simp
qed


section \<open>What a flow writes\<close>

lemma extendsWith_refl [simp]: "extendsWith W tx (Inr tx)"
  by (simp add: extendsWith_def)

lemma extendsWith_Inl [simp]: "extendsWith W tx (Inl e)"
  by (simp add: extendsWith_def)

lemma flowInto_extends:
  assumes "extendsWith W tx (Inr tx1)"
    and "falling \<or> 0 < newDepthOf b falling \<Longrightarrow> (q, WithDepth b (newDepthOf b falling) falling) \<in> W"
  shows "extendsWith W tx (case flowInto w b src q tx1 falling of
                              Inl e \<Rightarrow> Inl e | Inr (ok, tx2) \<Rightarrow> Inr tx2)"
proof (cases "flowInto w b src q tx1 falling")
  case (Inl e)
  then show ?thesis by simp
next
  case (Inr r)
  obtain ok tx2 where r: "r = (ok, tx2)" by (cases r)
  obtain evs where e: "tx2 = tx1 @ evs"
    "set (writes evs) \<subseteq> {(q, WithDepth b (newDepthOf b falling) falling)}"
    "writes evs \<noteq> [] \<longrightarrow> falling \<or> 0 < newDepthOf b falling"
    using flowInto_writes[of w b src q tx1 falling ok tx2] Inr r by auto
  have "set (writes evs) \<subseteq> W"
  proof (cases "writes evs = []")
    case False
    then show ?thesis using e assms(2) by auto
  qed simp
  moreover obtain evs1 where "tx1 = tx @ evs1" "set (writes evs1) \<subseteq> W"
    using assms(1) by (auto simp: extendsWith_def)
  ultimately have "tx2 = tx @ (evs1 @ evs) \<and> set (writes (evs1 @ evs)) \<subseteq> W"
    using e by simp
  then show ?thesis using Inr r unfolding extendsWith_def by (simp del: writes_append)
qed

lemma fold_extends:
  assumes "\<And>n r. n \<in> set ns \<Longrightarrow> extendsWith W tx r \<Longrightarrow> extendsWith W tx (f n r)"
    and "extendsWith W tx r0"
  shows "extendsWith W tx (fold f ns r0)"
  using assms by (induction ns arbitrary: r0) auto

lemma flowOutward_extends:
  assumes "extendsWith W tx r"
    and "0 < LiquidDepth b - SpreadDecay b \<Longrightarrow> (n, WithDepth b (LiquidDepth b - SpreadDecay b) False) \<in> W"
  shows "extendsWith W tx (flowOutwardSpec w b p displacer n r)"
proof (cases r)
  case (Inl e)
  then show ?thesis by (simp add: flowOutwardSpec_def)
next
  case (Inr tx1)
  show ?thesis
    using flowInto_extends[of W tx tx1 False b n w p] assms Inr
    by (simp add: flowOutwardSpec_def newDepthOf_def)
qed

lemma spreadOutwardsStep_eq:
  "spreadOutwardsStep w b p displacer n r =
     (if posY n = posY p then flowOutwardSpec w b p displacer n r else r)"
  by (auto simp: spreadOutwardsStep_def flowOutwardSpec_def split: sum.splits option.splits)

lemma spreadOutwards_eq:
  assumes "fst (txRange w) \<le> posY p" "posY p \<le> snd (txRange w)"
  shows "spreadOutwards w b p tx displacer =
           fold (flowOutwardSpec w b p displacer) (horizontalNeighboursSpec p) (Inr tx)"
proof -
  obtain x y z where p: "p = (x, y, z)" by (cases p)
  show ?thesis
    using assms unfolding p
    by (simp add: spreadOutwards_def Neighbours_def spreadOutwardsStep_eq horizontalNeighboursSpec_def
        posX_def posY_def posZ_def)
qed

text \<open>
  Claim C5. Let \<open>b\<close> be the liquid after the vertical step, spread-eligible (its depth is
  above its spread decay, and it is a source or cannot flow down), at a position inside
  the grid. When the path search returns no path, the tick flows \<open>b\<close> into the four
  horizontal neighbours in turn, skipping a neighbour whose side the displacer at the
  liquid's cell reports closed; every liquid written by this is \<open>b\<close> with the depth
  \<open>depth - spreadDecay\<close>, not falling, at one of the four neighbours. On the flat plane
  a source floods exactly its four neighbours with depth 7.
\<close>

theorem spread_outwards_without_paths:
  assumes "fst (txRange w) \<le> posY p" and "posY p \<le> snd (txRange w)"
    and "SpreadDecay b < LiquidDepth b" and "source b \<or> \<not> canFlowBelow"
    and "calculateLiquidPaths w b p tx displacer pool = Inr ([], pool')"
  shows "horizontalFlow w b p tx displacer canFlowBelow pool =
           (case fold (flowOutwardSpec w b p displacer) (horizontalNeighboursSpec p) (Inr tx) of
              Inl e \<Rightarrow> Inl e
            | Inr tx' \<Rightarrow> Inr (tx', pool'))
         \<and> (\<forall>tx'. fold (flowOutwardSpec w b p displacer) (horizontalNeighboursSpec p) (Inr tx) = Inr tx' \<longrightarrow>
               (\<exists>evs. tx' = tx @ evs
                  \<and> set (writes evs) \<subseteq> (\<lambda>n. (n, WithDepth b (LiquidDepth b - SpreadDecay b) False))
                                          ` set (horizontalNeighboursSpec p)))"
proof -
  let ?W = "(\<lambda>n. (n, WithDepth b (LiquidDepth b - SpreadDecay b) False)) ` set (horizontalNeighboursSpec p)"
  have "extendsWith ?W tx (fold (flowOutwardSpec w b p displacer) (horizontalNeighboursSpec p) (Inr tx))"
    by (rule fold_extends) (auto intro: flowOutward_extends)
  then have "\<forall>tx'. fold (flowOutwardSpec w b p displacer) (horizontalNeighboursSpec p) (Inr tx) = Inr tx' \<longrightarrow>
               (\<exists>evs. tx' = tx @ evs \<and> set (writes evs) \<subseteq> ?W)"
    by (auto simp: extendsWith_def)
  moreover have "horizontalFlow w b p tx displacer canFlowBelow pool =
           (case fold (flowOutwardSpec w b p displacer) (horizontalNeighboursSpec p) (Inr tx) of
              Inl e \<Rightarrow> Inl e
            | Inr tx' \<Rightarrow> Inr (tx', pool'))"
    using assms by (simp add: horizontalFlow_def spreadOutwards_eq)
  ultimately show ?thesis by blast
qed

lemma flatScene_noDrop:
  "canFlowInto (gridWorld flatScene) (water 8 False) [] (x, 0, z) True
     \<Longrightarrow> \<not> canFlowInto (gridWorld flatScene) (water 8 False) [] (x, 0 - 1, z) False"
  by (simp add: canFlowInto_def scene_defs flatScene_def)

theorem spread_outwards_without_paths_witness:
  "fst (txRange (gridWorld flatScene)) \<le> posY (0, 0, 0)
   \<and> posY (0, 0, 0) \<le> snd (txRange (gridWorld flatScene))
   \<and> source (water 8 False)
   \<and> calculateLiquidPaths (gridWorld flatScene) (water 8 False) (0, 0, 0) [] None []
        = Inr ([], [liquidQueueNew])
   \<and> tickLiquid (gridWorld flatScene) (water 8 False) (0, 0, 0) [] []
        = Inr ([SetLiquid (1, 0, 0) (Some (water 7 False)), SetLiquid (- 1, 0, 0) (Some (water 7 False)),
                SetLiquid (0, 0, 1) (Some (water 7 False)), SetLiquid (0, 0, - 1) (Some (water 7 False))],
               [liquidQueueNew])"
proof -
  have r: "poolReset []" by (simp add: poolReset_def)
  have c: "calculateLiquidPaths (gridWorld flatScene) (water 8 False) (0, 0, 0) [] None []
        = Inr ([], [liquidQueueNew])"
    using calculateLiquidPaths_noDrop[OF r, of "gridWorld flatScene" "water 8 False" "[]" "(0, 0, 0)" None]
      flatScene_noDrop by (simp add: posY_def)
  have h: "horizontalFlow (gridWorld flatScene) (water 8 False) (0, 0, 0) [] None False []
        = Inr ([SetLiquid (1, 0, 0) (Some (water 7 False)), SetLiquid (- 1, 0, 0) (Some (water 7 False)),
                SetLiquid (0, 0, 1) (Some (water 7 False)), SetLiquid (0, 0, - 1) (Some (water 7 False))],
               [liquidQueueNew])"
    using spread_outwards_without_paths[of "gridWorld flatScene" "(0, 0, 0)" "water 8 False" False "[]" None "[]"
        "[liquidQueueNew]"] c
    by (simp add: horizontalNeighboursSpec_def flowOutwardSpec_def flowInto_def source_def WithDepth_def
        scene_defs flatScene_def)
  have "tickLiquid (gridWorld flatScene) (water 8 False) (0, 0, 0) [] []
          = horizontalFlow (gridWorld flatScene) (water 8 False) (0, 0, 0) [] None False []"
    by (simp add: tickLiquid_def source_def verticalFlow_def canFlowInto_def SideDown_def
        scene_defs flatScene_def)
  then show ?thesis
    using c h by (simp add: source_def scene_defs)
qed

section \<open>Vertical flow comes first\<close>

lemma tickLiquid_sustained:
  assumes "source b \<or> sourceAround w b p tx"
  shows "tickLiquid w b p tx pool =
           (case verticalFlow w b p tx (asLiquidDisplacer (txBlock w tx p))
                   (canFlowInto w b tx (SideDown p) False) of
              Inl e \<Rightarrow> Inl e
            | Inr (b', tx') \<Rightarrow>
                horizontalFlow w b' p tx' (asLiquidDisplacer (txBlock w tx p))
                  (canFlowInto w b tx (SideDown p) False) pool)"
  using assms by (auto simp: tickLiquid_def Let_def)

text \<open>
  Claim C2, amended. A sustained liquid whose cell below can receive flow, and whose own
  displacer does not report the lower side closed, first flows into the cell below as a
  falling liquid of depth 8. If it is not a source, that is all the tick does: nothing
  spreads horizontally. A source goes on with the horizontal part of the tick.
\<close>

theorem vertical_flow_first:
  assumes "source b \<or> sourceAround w b p tx" and "canFlowInto w b tx (SideDown p) False"
    and "case asLiquidDisplacer (txBlock w tx p) of
           None \<Rightarrow> True | Some d \<Rightarrow> \<not> SideClosed d p (SideDown p) tx"
  shows "tickLiquid w b p tx pool =
           (case flowInto w (WithDepth b 8 True) p (SideDown p) tx True of
              Inl e \<Rightarrow> Inl e
            | Inr (ok, tx') \<Rightarrow>
                if source b
                then horizontalFlow w b p tx' (asLiquidDisplacer (txBlock w tx p)) True pool
                else Inr (tx', pool))"
proof -
  have v: "verticalFlow w b p tx (asLiquidDisplacer (txBlock w tx p)) True =
          (case flowInto w (WithDepth b 8 True) p (SideDown p) tx True of
             Inl e \<Rightarrow> Inl e | Inr (ok, tx') \<Rightarrow> Inr (b, tx'))"
    using assms(3) by (simp add: verticalFlow_def)
  have h: "\<not> source b \<Longrightarrow> horizontalFlow w b p tx' d True pool = Inr (tx', pool)" for tx' d
    by (simp add: horizontalFlow_def)
  show ?thesis
    unfolding tickLiquid_sustained[OF assms(1)] using assms(2) v h
    by (auto split: sum.splits)
qed

theorem vertical_flow_first_witness:
  "sourceAround (gridWorld streamDropScene) (water 7 False) (0, 0, 0) []
   \<and> \<not> source (water 7 False)
   \<and> canFlowInto (gridWorld streamDropScene) (water 7 False) [] (SideDown (0, 0, 0)) False
   \<and> asLiquidDisplacer (txBlock (gridWorld streamDropScene) [] (0, 0, 0)) = None
   \<and> tickLiquid (gridWorld streamDropScene) (water 7 False) (0, 0, 0) [] []
        = Inr ([SetLiquid (0, - 1, 0) (Some (water 8 True))], [])"
  using vertical_flow_first[of "water 7 False" "gridWorld streamDropScene" "(0, 0, 0)" "[]" "[]"]
  by (simp add: sourceAround_def sourceAroundStep_def Neighbours_def source_def canFlowInto_def
      SideDown_def flowInto_def WithDepth_def scene_defs streamDropScene_def)

lemma dropScene_noDrop:
  "canFlowInto (gridWorld dropScene) (water 8 False) [SetLiquid (0, - 1, 0) (Some (water 8 True))]
       (x, 0, z) True
     \<Longrightarrow> \<not> canFlowInto (gridWorld dropScene) (water 8 False)
           [SetLiquid (0, - 1, 0) (Some (water 8 True))] (x, 0 - 1, z) False"
  by (auto simp: canFlowInto_def scene_defs dropScene_def split: if_splits)

lemma dropScene_tick:
  "canFlowInto (gridWorld dropScene) (water 8 False) [] (SideDown (0, 0, 0)) False
   \<and> tickLiquid (gridWorld dropScene) (water 8 False) (0, 0, 0) [] []
        = Inr ([SetLiquid (0, - 1, 0) (Some (water 8 True)),
                SetLiquid (1, 0, 0) (Some (water 7 False)), SetLiquid (- 1, 0, 0) (Some (water 7 False)),
                SetLiquid (0, 0, 1) (Some (water 7 False)), SetLiquid (0, 0, - 1) (Some (water 7 False))],
               [liquidQueueNew])"
proof -
  let ?tx = "[SetLiquid (0, - 1, 0) (Some (water 8 True))]"
  have r: "poolReset []" by (simp add: poolReset_def)
  have c: "calculateLiquidPaths (gridWorld dropScene) (water 8 False) (0, 0, 0) ?tx None []
        = Inr ([], [liquidQueueNew])"
    using calculateLiquidPaths_noDrop[OF r, of "gridWorld dropScene" "water 8 False" ?tx "(0, 0, 0)" None]
      dropScene_noDrop by (simp add: posY_def)
  have s: "spreadOutwards (gridWorld dropScene) (water 8 False) (0, 0, 0) ?tx None
        = Inr (?tx @ [SetLiquid (1, 0, 0) (Some (water 7 False)), SetLiquid (- 1, 0, 0) (Some (water 7 False)),
                SetLiquid (0, 0, 1) (Some (water 7 False)), SetLiquid (0, 0, - 1) (Some (water 7 False))])"
    by (simp add: spreadOutwards_def spreadOutwardsStep_def Neighbours_def flowInto_def WithDepth_def
        scene_defs dropScene_def)
  have h: "horizontalFlow (gridWorld dropScene) (water 8 False) (0, 0, 0) ?tx None True []
        = Inr (?tx @ [SetLiquid (1, 0, 0) (Some (water 7 False)), SetLiquid (- 1, 0, 0) (Some (water 7 False)),
                SetLiquid (0, 0, 1) (Some (water 7 False)), SetLiquid (0, 0, - 1) (Some (water 7 False))],
               [liquidQueueNew])"
    using c s by (simp add: horizontalFlow_def source_def water_def)
  have b: "canFlowInto (gridWorld dropScene) (water 8 False) [] (SideDown (0, 0, 0)) False"
    by (simp add: canFlowInto_def SideDown_def scene_defs dropScene_def)
  have v: "verticalFlow (gridWorld dropScene) (water 8 False) (0, 0, 0) [] None True
             = Inr (water 8 False, ?tx)"
    by (simp add: verticalFlow_def flowInto_def SideDown_def WithDepth_def scene_defs dropScene_def)
  have d: "asLiquidDisplacer (txBlock (gridWorld dropScene) [] (0, 0, 0)) = None"
    by (simp add: scene_defs dropScene_def)
  have "tickLiquid (gridWorld dropScene) (water 8 False) (0, 0, 0) [] []
          = horizontalFlow (gridWorld dropScene) (water 8 False) (0, 0, 0) ?tx None True []"
    using b v d by (simp add: tickLiquid_def source_def water_def)
  then show ?thesis using b h by simp
qed

text \<open>
  Claim C2 as stated fails for a source: over a hole in an otherwise closed floor it flows
  down and, in the same tick, floods its four horizontal neighbours with depth 7.
\<close>

theorem source_over_drop_spreads:
  "canFlowInto (gridWorld dropScene) (water 8 False) [] (SideDown (0, 0, 0)) False
   \<and> source (water 8 False)
   \<and> tickLiquid (gridWorld dropScene) (water 8 False) (0, 0, 0) [] []
        = Inr ([SetLiquid (0, - 1, 0) (Some (water 8 True)),
                SetLiquid (1, 0, 0) (Some (water 7 False)), SetLiquid (- 1, 0, 0) (Some (water 7 False)),
                SetLiquid (0, 0, 1) (Some (water 7 False)), SetLiquid (0, 0, - 1) (Some (water 7 False))],
               [liquidQueueNew])"
  using dropScene_tick by (simp add: source_def water_def)

section \<open>The depth of the liquids a flow writes\<close>

lemma flowPathStep_extends:
  assumes "extendsWith W tx r"
    and "\<And>q. 0 < LiquidDepth b - SpreadDecay b \<Longrightarrow> (q, WithDepth b (LiquidDepth b - SpreadDecay b) False) \<in> W"
  shows "extendsWith W tx (flowPathStep w b p n path r)"
proof (cases r)
  case (Inl e)
  then show ?thesis by (simp add: flowPathStep_def)
next
  case (Inr tx1)
  show ?thesis
  proof (cases "length path \<le> n \<and> path \<noteq> []")
    case True
    then obtain t rest where path: "path = t # rest" by (cases path) auto
    show ?thesis
      using flowInto_extends[of W tx tx1 False b t w p] assms Inr True path
      by (simp add: flowPathStep_def newDepthOf_def)
  next
    case False
    then show ?thesis using assms(1) Inr by (auto simp: flowPathStep_def split: list.splits)
  qed
qed

lemma spreadOutwardsStep_extends:
  assumes "extendsWith W tx r"
    and "\<And>q. 0 < LiquidDepth b - SpreadDecay b \<Longrightarrow> (q, WithDepth b (LiquidDepth b - SpreadDecay b) False) \<in> W"
  shows "extendsWith W tx (spreadOutwardsStep w b p displacer n r)"
  using flowOutward_extends[of W tx r b n w p displacer] assms
  by (simp add: spreadOutwardsStep_eq)

lemma horizontalFlow_extends:
  assumes "extendsWith W tx (Inr tx1)"
    and "\<And>q. 0 < LiquidDepth b - SpreadDecay b \<Longrightarrow> (q, WithDepth b (LiquidDepth b - SpreadDecay b) False) \<in> W"
    and "horizontalFlow w b p tx1 displacer canFlowBelow pool = Inr (tx2, pool2)"
  shows "extendsWith W tx (Inr tx2)"
proof -
  have a: "extendsWith W tx (fold (flowPathStep w b p n) paths (Inr tx1))" for n paths
  proof (rule fold_extends)
    fix path r
    assume "extendsWith W tx r"
    then show "extendsWith W tx (flowPathStep w b p n path r)"
      by (rule flowPathStep_extends) (rule assms(2))
  qed (rule assms(1))
  have b: "extendsWith W tx (spreadOutwards w b p tx1 displacer)"
    unfolding spreadOutwards_def
  proof (rule fold_extends)
    fix n r
    assume "extendsWith W tx r"
    then show "extendsWith W tx (spreadOutwardsStep w b p displacer n r)"
      by (rule spreadOutwardsStep_extends) (rule assms(2))
  qed (rule assms(1))
  show ?thesis
  proof (cases "LiquidDepth b \<le> SpreadDecay b \<or> \<not> (source b \<or> \<not> canFlowBelow)")
    case True
    then have "tx2 = tx1" using assms(3) by (auto simp: horizontalFlow_def split: if_splits)
    then show ?thesis using assms(1) by simp
  next
    case False
    then obtain paths pool' where c: "calculateLiquidPaths w b p tx1 displacer pool = Inr (paths, pool')"
      using assms(3) by (cases "calculateLiquidPaths w b p tx1 displacer pool") (auto simp: horizontalFlow_def)
    show ?thesis
    proof (cases paths)
      case Nil
      then have "spreadOutwards w b p tx1 displacer = Inr tx2"
        using assms(3) False c by (auto simp: horizontalFlow_def split: sum.splits)
      then show ?thesis using b by simp
    next
      case (Cons path0 rest)
      then have "fold (flowPathStep w b p (length path0)) paths (Inr tx1) = Inr tx2"
        using assms(3) False c by (auto simp: horizontalFlow_def simp del: fold.simps split: sum.splits)
      then show ?thesis using a[of "length path0" paths] by simp
    qed
  qed
qed

lemma verticalFlow_extends:
  assumes "(SideDown p, WithDepth b 8 True) \<in> W"
    and "verticalFlow w b p tx displacer canFlowBelow = Inr (b', tx1)"
  shows "extendsWith W tx (Inr tx1) \<and> (b' = b \<or> b' = WithDepth b 8 True)"
proof -
  have "WithDepth (WithDepth b 8 True) (newDepthOf (WithDepth b 8 True) True) True = WithDepth b 8 True"
    by (simp add: WithDepth_def newDepthOf_def)
  then have "extendsWith W tx (case flowInto w (WithDepth b 8 True) p (SideDown p) tx True of
                              Inl e \<Rightarrow> Inl e | Inr (ok, tx2) \<Rightarrow> Inr tx2)"
    using flowInto_extends[of W tx tx True "WithDepth b 8 True" "SideDown p" w p] assms(1) by simp
  then show ?thesis
    using assms(2)
    by (auto simp: verticalFlow_def split: if_splits sum.splits prod.splits)
qed

lemma tickLiquid_writes:
  assumes s: "source b0 \<or> sourceAround w b0 p tx0"
    and t: "tickLiquid w b0 p tx0 pool = Inr (tx', pool')"
  shows "\<exists>evs. tx' = tx0 @ evs \<and> (\<forall>ql\<in>set (writes evs). 1 \<le> LiquidDepth (snd ql))"
proof -
  let ?W = "{ql. 1 \<le> LiquidDepth (snd ql)} :: (pos \<times> liquid) set"
  let ?d = "asLiquidDisplacer (txBlock w tx0 p)"
  let ?c = "canFlowInto w b0 tx0 (SideDown p) False"
  show ?thesis
  proof (cases "verticalFlow w b0 p tx0 ?d ?c")
    case (Inl e)
    then show ?thesis using t unfolding tickLiquid_sustained[OF s] by simp
  next
    case (Inr r)
    obtain b' tx1 where r: "r = (b', tx1)" by (cases r)
    have v: "verticalFlow w b0 p tx0 ?d ?c = Inr (b', tx1)" using Inr r by simp
    have h: "horizontalFlow w b' p tx1 ?d ?c pool = Inr (tx', pool')"
      using t unfolding tickLiquid_sustained[OF s] v by simp
    have "(SideDown p, WithDepth b0 8 True) \<in> ?W" by (simp add: WithDepth_def)
    from verticalFlow_extends[OF this v] have e: "extendsWith ?W tx0 (Inr tx1)" ..
    have "extendsWith ?W tx0 (Inr tx')"
    proof (rule horizontalFlow_extends[OF e _ h])
      fix q
      assume "0 < LiquidDepth b' - SpreadDecay b'"
      then show "(q, WithDepth b' (LiquidDepth b' - SpreadDecay b') False) \<in> ?W"
        by (simp add: WithDepth_def)
    qed
    then show ?thesis unfolding extendsWith_def by auto
  qed
qed

text \<open>
  Claim C10. A step of \<open>flowInto\<close> that is not falling and whose computed depth
  \<open>depth - spreadDecay\<close> is not positive returns false and leaves the transaction as it
  is. Whatever \<open>flowInto\<close> writes is the flowing liquid with the candidate depth, which is
  positive for a step that is not falling and is the liquid's own depth for a falling
  step. In a tick of a sustained liquid, where every write is made by \<open>flowInto\<close> (the
  vertical call passes depth 8), every liquid written has a depth of at least 1.
\<close>

theorem flow_writes_positive_depth:
  "(\<not> falling \<and> LiquidDepth b - SpreadDecay b \<le> 0 \<longrightarrow>
       flowInto w b src q tx falling = Inr (False, tx))
   \<and> (flowInto w b src q tx falling = Inr (ok, tx1) \<longrightarrow>
         (\<exists>evs. tx1 = tx @ evs
            \<and> set (writes evs) \<subseteq> {(q, WithDepth b (newDepthOf b falling) falling)}
            \<and> (writes evs \<noteq> [] \<longrightarrow> falling \<or> 0 < newDepthOf b falling)))
   \<and> ((source b0 \<or> sourceAround w b0 p tx0) \<and> tickLiquid w b0 p tx0 pool = Inr (tx', pool') \<longrightarrow>
         (\<exists>evs. tx' = tx0 @ evs \<and> (\<forall>ql\<in>set (writes evs). 1 \<le> LiquidDepth (snd ql))))"
proof (intro conjI)
  show "\<not> falling \<and> LiquidDepth b - SpreadDecay b \<le> 0 \<longrightarrow>
       flowInto w b src q tx falling = Inr (False, tx)"
    by (simp add: flowInto_rejected)
  show "flowInto w b src q tx falling = Inr (ok, tx1) \<longrightarrow>
         (\<exists>evs. tx1 = tx @ evs
            \<and> set (writes evs) \<subseteq> {(q, WithDepth b (newDepthOf b falling) falling)}
            \<and> (writes evs \<noteq> [] \<longrightarrow> falling \<or> 0 < newDepthOf b falling))"
    using flowInto_writes[of w b src q tx falling ok tx1] by (rule impI)
  show "(source b0 \<or> sourceAround w b0 p tx0) \<and> tickLiquid w b0 p tx0 pool = Inr (tx', pool') \<longrightarrow>
         (\<exists>evs. tx' = tx0 @ evs \<and> (\<forall>ql\<in>set (writes evs). 1 \<le> LiquidDepth (snd ql)))"
    using tickLiquid_writes[of b0 w p tx0 pool tx' pool'] by (intro impI) (elim conjE)
qed

theorem flow_writes_positive_depth_witness:
  "source (water 8 False)
   \<and> tickLiquid (gridWorld dropScene) (water 8 False) (0, 0, 0) [] []
        = Inr ([SetLiquid (0, - 1, 0) (Some (water 8 True)),
                SetLiquid (1, 0, 0) (Some (water 7 False)), SetLiquid (- 1, 0, 0) (Some (water 7 False)),
                SetLiquid (0, 0, 1) (Some (water 7 False)), SetLiquid (0, 0, - 1) (Some (water 7 False))],
               [liquidQueueNew])
   \<and> 1 \<le> LiquidDepth (water 8 True) \<and> 1 \<le> LiquidDepth (water 7 False)
   \<and> flowInto (gridWorld dropScene) (water 1 False) (0, 0, 0) (1, 0, 0) [] False = Inr (False, [])"
  using flow_writes_positive_depth[of False "water 1 False" "gridWorld dropScene" "(0, 0, 0)" "(1, 0, 0)" "[]"
      False "[]" "water 8 False" "(0, 0, 0)" "[]" "[]" _ "[liquidQueueNew]"] dropScene_tick
  by (simp add: source_def water_def)

end
